theory Spec2Isabelle
  imports Complex_Main "HOL-Library.Sublist"
begin

section \<open>Timers of the browser\<close>

text \<open>
  The typewriter registers callbacks with \<open>setTimeout\<close> and \<open>setInterval\<close>. A timer of
  the browser's table is a handle (a positive integer, never reused), whether it repeats, the
  callback it runs and its delay in milliseconds. Time itself is not modelled: any live
  timer may fire next, which covers every order the real delays allow.
\<close>

datatype callback = TypewriterTick | RetryStart | PauseAfterType | PauseAfterDelete

datatype timer = Timer (handle: nat) (repeating: bool) (callback: callback) (delay: nat)

section \<open>Typewriter effect\<close>

subsection \<open>Configuration (TYPEWRITER\_CONFIG)\<close>

definition TYPEWRITER_text :: string where
  "TYPEWRITER_text = ''HIFI DOCS''"

definition typeSpeed :: nat where "typeSpeed = 150"
definition pauseDuration :: nat where "pauseDuration = 5000"
definition deleteSpeed :: nat where "deleteSpeed = 50"
definition deletePause :: nat where "deletePause = 500"
definition loop :: bool where "loop = True"

subsection \<open>State\<close>

text \<open>
  The closure variables of the script, followed by the part of the browser they act on:
  the timer table, the next free handle, the \<open>textContent\<close> this script has written to
  each element (elements are numbered; \<open>None\<close> is the text of the page's own markup)
  and the number of exceptions that escaped a callback.
\<close>

record tw_state =
  typewriterInterval :: "nat option"
  typewriterElement :: "nat option"
  isTyping :: bool
  isDeleting :: bool
  currentText :: string
  currentIndex :: nat
  timers :: "timer list"
  nextHandle :: nat
  textContent :: "nat \<Rightarrow> string option"
  uncaught :: nat

definition tw_init :: tw_state where
  "tw_init = \<lparr> typewriterInterval = None, typewriterElement = None, isTyping = False,
      isDeleting = False, currentText = [], currentIndex = 0, timers = [], nextHandle = 1,
      textContent = (\<lambda>_. None), uncaught = 0 \<rparr>"

text \<open>JavaScript truthiness of a timer handle: \<open>null\<close> and \<open>0\<close> are falsy.\<close>

definition truthy :: "nat option \<Rightarrow> bool" where
  "truthy h = (case h of None \<Rightarrow> False | Some n \<Rightarrow> n \<noteq> 0)"

definition setInterval :: "callback \<Rightarrow> nat \<Rightarrow> tw_state \<Rightarrow> nat \<times> tw_state" where
  "setInterval cb d s =
     (nextHandle s,
      s\<lparr>timers := timers s @ [Timer (nextHandle s) True cb d], nextHandle := nextHandle s + 1\<rparr>)"

definition setTimeout :: "callback \<Rightarrow> nat \<Rightarrow> tw_state \<Rightarrow> nat \<times> tw_state" where
  "setTimeout cb d s =
     (nextHandle s,
      s\<lparr>timers := timers s @ [Timer (nextHandle s) False cb d], nextHandle := nextHandle s + 1\<rparr>)"

text \<open>\<open>clearInterval(null)\<close> does nothing; a handle removes the timer that carries it.\<close>

definition clearInterval :: "nat option \<Rightarrow> tw_state \<Rightarrow> tw_state" where
  "clearInterval h s =
     (case h of None \<Rightarrow> s
      | Some n \<Rightarrow> s\<lparr>timers := filter (\<lambda>t. handle t \<noteq> n) (timers s)\<rparr>)"

text \<open>
  \<open>typewriterElement.textContent = v\<close>: when the variable holds \<open>null\<close> the assignment
  throws a TypeError, which ends the callback; the statements before it have taken effect.
\<close>

definition set_textContent :: "string \<Rightarrow> tw_state \<Rightarrow> tw_state" where
  "set_textContent v s =
     (case typewriterElement s of
        None \<Rightarrow> s\<lparr>uncaught := uncaught s + 1\<rparr>
      | Some e \<Rightarrow> s\<lparr>textContent := (textContent s)(e := Some v)\<rparr>)"

subsection \<open>Operations\<close>

text \<open>
  \<open>startTypewriterAnimation\<close>; the argument is what \<open>document.querySelector(".hero-title")\<close>
  returns at the moment of the call.
\<close>

definition startTypewriterAnimation :: "nat option \<Rightarrow> tw_state \<Rightarrow> tw_state" where
  "startTypewriterAnimation q s =
     (let s1 = s\<lparr>typewriterElement := q\<rparr> in
      if q = None then snd (setTimeout RetryStart 100 s1)
      else if truthy (typewriterInterval s1) then s1
      else
        let s2 = s1\<lparr>currentText := [], currentIndex := 0, isTyping := True, isDeleting := False\<rparr>;
            r = setInterval TypewriterTick typeSpeed s2
        in (snd r)\<lparr>typewriterInterval := Some (fst r)\<rparr>)"

definition typewriterTick :: "tw_state \<Rightarrow> tw_state" where
  "typewriterTick s =
     (if isTyping s then
        (if currentIndex s < length TYPEWRITER_text then
           let s1 = s\<lparr>currentText := currentText s @ [TYPEWRITER_text ! currentIndex s]\<rparr>;
               s2 = s1\<lparr>currentIndex := currentIndex s1 + 1\<rparr>
           in set_textContent (currentText s2) s2
         else
           let s1 = s\<lparr>isTyping := False\<rparr>;
               s2 = clearInterval (typewriterInterval s1) s1;
               s3 = s2\<lparr>typewriterInterval := None\<rparr>
           in snd (setTimeout PauseAfterType pauseDuration s3))
      else if isDeleting s then
        (if length (currentText s) > 0 then
           let s1 = s\<lparr>currentText := butlast (currentText s)\<rparr>
           in set_textContent (currentText s1) s1
         else
           let s1 = s\<lparr>isDeleting := False\<rparr>;
               s2 = clearInterval (typewriterInterval s1) s1;
               s3 = s2\<lparr>typewriterInterval := None\<rparr>
           in snd (setTimeout PauseAfterDelete deletePause s3))
      else s)"

text \<open>The two arrow functions that \<open>typewriterTick\<close> hands to \<open>setTimeout\<close>.\<close>

definition afterTypePause :: "tw_state \<Rightarrow> tw_state" where
  "afterTypePause s =
     (let s1 = s\<lparr>isDeleting := True\<rparr>;
          r = setInterval TypewriterTick deleteSpeed s1
      in (snd r)\<lparr>typewriterInterval := Some (fst r)\<rparr>)"

definition afterDeletePause :: "tw_state \<Rightarrow> tw_state" where
  "afterDeletePause s =
     (if loop then
        let s1 = s\<lparr>currentIndex := 0\<rparr>;
            s2 = s1\<lparr>isTyping := True\<rparr>;
            r = setInterval TypewriterTick typeSpeed s2
        in (snd r)\<lparr>typewriterInterval := Some (fst r)\<rparr>
      else s)"

definition stopTypewriterAnimation :: "tw_state \<Rightarrow> tw_state" where
  "stopTypewriterAnimation s =
     (let s1 = (if truthy (typewriterInterval s)
                then (clearInterval (typewriterInterval s) s)\<lparr>typewriterInterval := None\<rparr>
                else s)
      in case typewriterElement s1 of
           None \<Rightarrow> s1
         | Some e \<Rightarrow> s1\<lparr>textContent := (textContent s1)(e := Some TYPEWRITER_text)\<rparr>)"

subsection \<open>The event loop\<close>

text \<open>
  What can happen to the typewriter: a call of \<open>startTypewriterAnimation\<close> (from boot, an
  observer or \<open>window.hifiAnimations\<close>), a call of \<open>stopTypewriterAnimation\<close>, or a live
  timer firing. A start, and a retry timer that fires, carry the element the selector finds
  at that moment. A timeout leaves the table when it fires, an interval stays.
\<close>

datatype event = CallStart "nat option" | CallStop | Fire nat "nat option"

fun run_callback :: "callback \<Rightarrow> nat option \<Rightarrow> tw_state \<Rightarrow> tw_state" where
  "run_callback TypewriterTick q s = typewriterTick s"
| "run_callback RetryStart q s = startTypewriterAnimation q s"
| "run_callback PauseAfterType q s = afterTypePause s"
| "run_callback PauseAfterDelete q s = afterDeletePause s"

definition fire :: "nat \<Rightarrow> nat option \<Rightarrow> tw_state \<Rightarrow> tw_state" where
  "fire h q s =
     (case find (\<lambda>t. handle t = h) (timers s) of
        None \<Rightarrow> s
      | Some t \<Rightarrow>
          run_callback (callback t) q
            (if repeating t then s
             else s\<lparr>timers := filter (\<lambda>t. handle t \<noteq> h) (timers s)\<rparr>))"

fun step :: "tw_state \<Rightarrow> event \<Rightarrow> tw_state" where
  "step s (CallStart q) = startTypewriterAnimation q s"
| "step s CallStop = stopTypewriterAnimation s"
| "step s (Fire h q) = fire h q s"

definition run :: "event list \<Rightarrow> tw_state \<Rightarrow> tw_state" where
  "run es s = foldl step s es"


section \<open>Flowing-light effect\<close>

text \<open>
  The script with both effects and \<open>flowing-light.js\<close> define this effect by the same
  code; \<open>flowing-light.js\<close> declares the constants one by one, with the same values.
\<close>

subsection \<open>Configuration (FLOWING\_LIGHT\_CONFIG)\<close>

definition GRID_SIZE :: nat where "GRID_SIZE = 25"
definition DOT_SIZE :: real where "DOT_SIZE = 1"
definition OPACITY_BASE :: real where "OPACITY_BASE = 0.02"
definition OPACITY_SCALE :: real where "OPACITY_SCALE = 0.5"
definition PROX_RADIUS :: real where "PROX_RADIUS = 150"
definition RESIZE_DEBOUNCE_MS :: nat where "RESIZE_DEBOUNCE_MS = 150"
definition MAX_RETRIES :: nat where "MAX_RETRIES = 20"

subsection \<open>Numbers of the language\<close>

text \<open>
  JavaScript numbers are modelled as reals. \<open>x | 0\<close> is the language's ToInt32: the
  number is truncated towards zero and wrapped into the signed 32-bit range.
\<close>

definition trunc :: "real \<Rightarrow> int" where
  "trunc x = (if 0 \<le> x then \<lfloor>x\<rfloor> else \<lceil>x\<rceil>)"

definition to_int32 :: "real \<Rightarrow> int" where
  "to_int32 x = (trunc x + 2 ^ 31) mod 2 ^ 32 - 2 ^ 31"

text \<open>
  A \<open>Float32Array\<close> keeps every number it is given as an IEEE binary32 value, rounded to
  the nearest one, ties to the even significand. The script stores natural numbers only.
  \<open>f32_ulp n\<close> is the distance between neighbouring binary32 values at \<open>n\<close>: below
  \<open>2 ^ 24\<close> every natural number is a binary32 value, and the distance doubles with
  every further bit.
\<close>

fun f32_ulp :: "nat \<Rightarrow> nat" where
  "f32_ulp n = (if n < 2 ^ 24 then 1 else 2 * f32_ulp (n div 2))"

declare f32_ulp.simps [simp del]

definition toFloat32 :: "nat \<Rightarrow> nat" where
  "toFloat32 n =
     (let u = f32_ulp n; q = n div u; r = n mod u
      in if 2 * r < u \<or> (2 * r = u \<and> even q) then q * u else (q + 1) * u)"

subsection \<open>Exceptions\<close>

text \<open>
  The two exceptions the effect can raise: a \<open>TypeError\<close> when a method is called on
  \<open>null\<close>, which is what \<open>canvas.getContext("2d")\<close> returns when the browser gives no
  context, and a \<open>RangeError\<close> when \<open>new Float32Array(n)\<close> is refused. The constructor
  refuses every length above \<open>2 ^ 53 - 1\<close>, and any length for which the browser cannot
  allocate the buffer; \<open>cap\<close> below is the largest length it can allocate at that
  moment. A function that can raise returns \<open>Inl\<close> with the exception and the state it
  leaves behind, or \<open>Inr\<close> with the state at its return.
\<close>

datatype js_error = RangeError | TypeError

definition MAX_SAFE_INTEGER :: nat where
  "MAX_SAFE_INTEGER = 2 ^ 53 - 1"

definition allocates :: "nat \<Rightarrow> nat \<Rightarrow> bool" where
  "allocates cap n = (n \<le> cap \<and> n \<le> MAX_SAFE_INTEGER)"

subsection \<open>State of one run\<close>

text \<open>
  The variables local to one call of \<open>startAnimation\<close> that found the container, shared
  by the closures \<open>resize\<close>, \<open>onResize\<close>, \<open>onMouseMove\<close>, \<open>tick\<close> and \<open>cleanup\<close>;
  then what the run has registered with the browser: the animation frames it has requested
  and not yet received, its pending debounce timeouts, its two listeners, whether its canvas
  hangs in the container and whether the container still carries its cleanup handle; and
  the dots of the last frame as (x, y, opacity), and the exceptions that escaped a callback
  of the run. \<open>ctx\<close> says whether the run has a 2D context (\<open>False\<close> is \<open>null\<close>). The
  device pixel ratio and the canvas size are left out: no property below reads them.
\<close>

record fl_state =
  width :: int
  height :: int
  cols :: nat
  rows :: nat
  dots :: "real list"
  mouseX :: real
  mouseY :: real
  time :: real
  rafId :: nat
  running :: bool
  resizeTimer :: nat
  frames :: "nat list"
  debounces :: "nat list"
  nextFrame :: nat
  nextTimer :: nat
  resizeListener :: bool
  mousemoveListener :: bool
  canvasAttached :: bool
  cleanupHandle :: bool
  painted :: "(real \<times> real \<times> real) list"
  ctx :: bool
  escaped :: "js_error list"

text \<open>The state a call ends in, returned or raised.\<close>

definition state_of :: "(js_error \<times> fl_state) + fl_state \<Rightarrow> fl_state" where
  "state_of r = (case r of Inl (e, s) \<Rightarrow> s | Inr s \<Rightarrow> s)"

text \<open>An exception that escapes a callback is reported and the event loop goes on.\<close>

definition settle :: "(js_error \<times> fl_state) + fl_state \<Rightarrow> fl_state" where
  "settle r = (case r of Inl (e, s) \<Rightarrow> s\<lparr>escaped := escaped s @ [e]\<rparr> | Inr s \<Rightarrow> s)"

subsection \<open>resize\<close>

text \<open>
  The two nested loops write the array through the running index \<open>i\<close>; a write outside
  a typed array is ignored, as a list update outside the list is.
\<close>

definition put_dot :: "nat \<Rightarrow> real list \<times> nat \<Rightarrow> nat \<Rightarrow> real list \<times> nat" where
  "put_dot r di c =
     (let d1 = (fst di)[snd di := real (toFloat32 (c * GRID_SIZE))];
          d2 = d1[snd di + 1 := real (toFloat32 (r * GRID_SIZE))]
      in (d2, snd di + 2))"

definition fill_row :: "nat \<Rightarrow> real list \<times> nat \<Rightarrow> nat \<Rightarrow> real list \<times> nat" where
  "fill_row ncols di r = fold (\<lambda>c acc. put_dot r acc c) [0..<ncols] di"

definition fill_grid :: "nat \<Rightarrow> nat \<Rightarrow> real list \<Rightarrow> real list" where
  "fill_grid ncols nrows d = fst (fold (\<lambda>r acc. fill_row ncols acc r) [0..<nrows] (d, 0))"

text \<open>
  \<open>resize\<close>; the arguments are the largest array length the browser can allocate and
  \<open>rect.width\<close> and \<open>rect.height\<close> of the container's bounding rectangle. The
  statements in the order of the source: \<open>width\<close> and \<open>height\<close> are assigned;
  \<open>ctx.setTransform\<close> raises when there is no context; \<open>cols\<close> and \<open>rows\<close> are
  assigned; the constructor raises when the array is refused, and \<open>dots\<close> then keeps the
  array it had; otherwise \<open>dots\<close> is the new array, filled by the loops.

  The clamped width is an integer below \<open>2 ^ 31\<close>; its quotient by 25 is an integer or at
  least \<open>1 / 25\<close> away from one, so the rounding of the division to a double does not
  change what \<open>Math.ceil\<close> returns. \<open>cols\<close> and \<open>rows\<close> are below \<open>2 ^ 27\<close>, so
  \<open>cols * rows\<close> is below \<open>2 ^ 53\<close> and \<open>cols * rows * 2\<close> is computed exactly.
\<close>

definition resize ::
  "nat \<Rightarrow> real \<Rightarrow> real \<Rightarrow> fl_state \<Rightarrow> (js_error \<times> fl_state) + fl_state" where
  "resize cap rw rh s =
     (let s1 = s\<lparr>width := max 1 (to_int32 rw), height := max 1 (to_int32 rh)\<rparr>
      in if \<not> ctx s1 then Inl (TypeError, s1)
         else
           let s2 = s1\<lparr>cols := nat \<lceil>real_of_int (width s1) / real GRID_SIZE\<rceil>,
                       rows := nat \<lceil>real_of_int (height s1) / real GRID_SIZE\<rceil>\<rparr>;
               n = cols s2 * rows s2 * 2
           in if allocates cap n
              then Inr (s2\<lparr>dots := fill_grid (cols s2) (rows s2) (replicate n 0)\<rparr>)
              else Inl (RangeError, s2))"

subsection \<open>tick\<close>

definition wave1 :: "real \<Rightarrow> real \<Rightarrow> real" where
  "wave1 t dst = sin (t * 0.8 - dst * 0.005) * 0.5 + 0.5"

definition wave2 :: "real \<Rightarrow> real \<Rightarrow> real" where
  "wave2 t dst = sin (t * 0.6 - dst * 0.004 + pi / 3) * 0.5 + 0.5"

definition wave3 :: "real \<Rightarrow> real \<Rightarrow> real" where
  "wave3 t dst = sin (t * 0.7 - dst * 0.006 + pi / 6) * 0.5 + 0.5"

definition intensity :: "real \<Rightarrow> real \<Rightarrow> real" where
  "intensity t dst = (wave1 t dst + wave2 t dst + wave3 t dst) / 3"

definition proxInv :: real where
  "proxInv = 1 / PROX_RADIUS"

definition proxBoost :: "real \<Rightarrow> real" where
  "proxBoost dst = max 0 (1 - dst * proxInv) * 0.4"

definition finalIntensity :: "real \<Rightarrow> real \<Rightarrow> real" where
  "finalIntensity t dst = min 1 (intensity t dst + proxBoost dst)"

definition hypot :: "real \<Rightarrow> real \<Rightarrow> real" where
  "hypot dx dy = sqrt (dx * dx + dy * dy)"

text \<open>The body of the loop over the dots: where the dot is drawn and how opaque.\<close>

definition paint_dot :: "fl_state \<Rightarrow> real \<Rightarrow> real \<Rightarrow> real \<times> real \<times> real" where
  "paint_dot s x0 y0 =
     (let dx = mouseX s - x0;
          dy = mouseY s - y0;
          dst = hypot dx dy;
          dirX = dx / max 1 (real_of_int (width s));
          dirY = dy / max 1 (real_of_int (height s));
          offsetX = sin (time s * 0.6 - dst * 0.005) * 3 + dirX * 2;
          offsetY = cos (time s * 0.5 - dst * 0.005) * 3 + dirY * 2;
          a = OPACITY_BASE + finalIntensity (time s) dst * OPACITY_SCALE
      in (x0 + offsetX, y0 + offsetY, a))"

function draw_dots :: "fl_state \<Rightarrow> nat \<Rightarrow> (real \<times> real \<times> real) list" where
  "draw_dots s i =
     (if i < length (dots s)
      then paint_dot s (dots s ! i) (dots s ! (i + 1)) # draw_dots s (i + 2)
      else [])"
  by pat_completeness auto
termination
  by (relation "measure (\<lambda>(s, i). length (dots s) - i)") auto

declare draw_dots.simps [simp del]

definition requestAnimationFrame :: "fl_state \<Rightarrow> fl_state" where
  "requestAnimationFrame s =
     s\<lparr>rafId := nextFrame s, frames := frames s @ [nextFrame s], nextFrame := nextFrame s + 1\<rparr>"

definition cancelAnimationFrame :: "nat \<Rightarrow> fl_state \<Rightarrow> fl_state" where
  "cancelAnimationFrame k s = s\<lparr>frames := filter (\<lambda>f. f \<noteq> k) (frames s)\<rparr>"

text \<open>\<open>tick\<close>; \<open>ctx.clearRect\<close> raises when there is no context.\<close>

definition tick :: "fl_state \<Rightarrow> (js_error \<times> fl_state) + fl_state" where
  "tick s =
     (if \<not> running s then Inr s
      else
        let s1 = s\<lparr>time := time s + 0.01\<rparr>
        in if \<not> ctx s1 then Inl (TypeError, s1)
           else
             let s2 = s1\<lparr>painted := draw_dots s1 0\<rparr>
             in Inr (requestAnimationFrame s2))"

subsection \<open>Listeners, start and cleanup of a run\<close>

definition onResize :: "fl_state \<Rightarrow> fl_state" where
  "onResize s =
     (let s1 = s\<lparr>debounces := filter (\<lambda>k. k \<noteq> resizeTimer s) (debounces s)\<rparr>
      in s1\<lparr>resizeTimer := nextTimer s1, debounces := debounces s1 @ [nextTimer s1],
            nextTimer := nextTimer s1 + 1\<rparr>)"

text \<open>The arrow function that \<open>onResize\<close> hands to \<open>setTimeout\<close>.\<close>

definition debounced ::
  "nat \<Rightarrow> real \<Rightarrow> real \<Rightarrow> fl_state \<Rightarrow> (js_error \<times> fl_state) + fl_state" where
  "debounced cap rw rh s =
     (let s1 = cancelAnimationFrame (rafId s) s
      in case resize cap rw rh s1 of
           Inl x \<Rightarrow> Inl x
         | Inr s2 \<Rightarrow> Inr (if running s2 then requestAnimationFrame s2 else s2))"

definition onMouseMove :: "real \<Rightarrow> real \<Rightarrow> real \<Rightarrow> real \<Rightarrow> fl_state \<Rightarrow> fl_state" where
  "onMouseMove clientX clientY rectLeft rectTop s =
     s\<lparr>mouseX := clientX - rectLeft, mouseY := clientY - rectTop\<rparr>"

text \<open>
  \<open>start_run\<close> is \<open>startAnimation\<close> from the creation of the canvas on, for a container
  whose bounding rectangle has the given size; the first argument says whether
  \<open>getContext\<close> gives a context. Handles of frames and timers start at 1. When the first
  \<open>resize\<close> raises, the canvas hangs in the container and nothing else is set up.
\<close>

definition fl_fresh :: "bool \<Rightarrow> fl_state" where
  "fl_fresh c = \<lparr> width = 0, height = 0, cols = 0, rows = 0, dots = [], mouseX = 0, mouseY = 0,
      time = 0, rafId = 0, running = True, resizeTimer = 0, frames = [], debounces = [],
      nextFrame = 1, nextTimer = 1, resizeListener = False, mousemoveListener = False,
      canvasAttached = True, cleanupHandle = False, painted = [], ctx = c, escaped = [] \<rparr>"

definition start_run ::
  "bool \<Rightarrow> nat \<Rightarrow> real \<Rightarrow> real \<Rightarrow> (js_error \<times> fl_state) + fl_state" where
  "start_run c cap rw rh =
     (case resize cap rw rh (fl_fresh c) of
        Inl x \<Rightarrow> Inl x
      | Inr s1 \<Rightarrow>
          let s2 = s1\<lparr>mouseX := real_of_int (width s1) / 2,
                      mouseY := real_of_int (height s1) / 2\<rparr>;
              s3 = requestAnimationFrame s2
          in Inr (s3\<lparr>resizeListener := True, mousemoveListener := True, cleanupHandle := True\<rparr>))"

definition cleanup :: "fl_state \<Rightarrow> fl_state" where
  "cleanup s =
     (let s1 = s\<lparr>running := False\<rparr>;
          s2 = cancelAnimationFrame (rafId s1) s1
      in s2\<lparr>resizeListener := False, mousemoveListener := False, canvasAttached := False,
            cleanupHandle := False\<rparr>)"

text \<open>
  What can happen to a run: a frame it requested arrives, the window is resized, a debounce
  timeout fires (with the allocation limit and the container's size at that moment), the
  mouse moves over the
  container, or its cleanup is called through the handle on the container
  (\<open>stopFlowingLight\<close> and the next \<open>startAnimation\<close> both test the handle first).
\<close>

datatype fl_event =
    FrameFire nat
  | WindowResize
  | DebounceFire nat nat real real
  | MouseMove real real real real
  | Cleanup

fun fl_step :: "fl_state \<Rightarrow> fl_event \<Rightarrow> fl_state" where
  "fl_step s (FrameFire k) =
     (if k \<in> set (frames s)
      then settle (tick (s\<lparr>frames := filter (\<lambda>f. f \<noteq> k) (frames s)\<rparr>))
      else s)"
| "fl_step s WindowResize = (if resizeListener s then onResize s else s)"
| "fl_step s (DebounceFire k cap rw rh) =
     (if k \<in> set (debounces s)
      then settle (debounced cap rw rh (s\<lparr>debounces := filter (\<lambda>f. f \<noteq> k) (debounces s)\<rparr>))
      else s)"
| "fl_step s (MouseMove cx cy l t) = (if mousemoveListener s then onMouseMove cx cy l t s else s)"
| "fl_step s Cleanup = (if cleanupHandle s then cleanup s else s)"

definition fl_run :: "fl_event list \<Rightarrow> fl_state \<Rightarrow> fl_state" where
  "fl_run es s = foldl fl_step s es"

subsection \<open>Retries of startAnimation\<close>

text \<open>
  \<open>startAnimation\<close> up to the creation of the canvas: the retry counter of the script and
  the retry timeouts it has pending, each a handle with its delay. The argument says
  whether \<open>getElementById\<close> finds the container.
\<close>

record boot_state =
  retryCount :: nat
  retries :: "(nat \<times> nat) list"
  nextRetry :: nat

definition boot_init :: boot_state where
  "boot_init = \<lparr> retryCount = 0, retries = [], nextRetry = 1 \<rparr>"

definition startAnimation :: "bool \<Rightarrow> boot_state \<Rightarrow> boot_state" where
  "startAnimation found b =
     (if \<not> found then
        (if retryCount b < MAX_RETRIES then
           let b1 = b\<lparr>retryCount := retryCount b + 1\<rparr>
           in b1\<lparr>retries := retries b1 @ [(nextRetry b1, min (50 * retryCount b1) 500)],
                 nextRetry := nextRetry b1 + 1\<rparr>
         else b)
      else b\<lparr>retryCount := 0\<rparr>)"

datatype boot_event = CallStartAnimation bool | FireRetry nat bool

fun boot_step :: "boot_state \<Rightarrow> boot_event \<Rightarrow> boot_state" where
  "boot_step b (CallStartAnimation found) = startAnimation found b"
| "boot_step b (FireRetry k found) =
     (if k \<in> fst ` set (retries b)
      then startAnimation found (b\<lparr>retries := filter (\<lambda>t. fst t \<noteq> k) (retries b)\<rparr>)
      else b)"

definition boot_run :: "boot_event list \<Rightarrow> boot_state \<Rightarrow> boot_state" where
  "boot_run es b = foldl boot_step b es"

section \<open>Mutation observers\<close>

text \<open>
  A mutation record is of type \<open>childList\<close>, with the nodes it added, or of another type.
  Of an added node the observer reads whether it is an element, its \<open>id\<close> and whether
  \<open>querySelector("#flowing-light-container")\<close> finds a descendant.
\<close>

datatype node = Node (is_element: bool) (node_id: string) (contains_container: bool)

datatype mutation = ChildList "node list" | Attributes | CharacterData

fun added_loop :: "node list \<Rightarrow> bool" where
  "added_loop [] = False"
| "added_loop (n # ns) =
     (if is_element n then
        (if node_id n = ''flowing-light-container'' \<or> contains_container n then True
         else added_loop ns)
      else added_loop ns)"

text \<open>
  What \<open>startAnimation\<close> meets when an observer calls it: no container, or a container
  with what the new run will read from the browser: whether \<open>getContext\<close> gives a
  context, the bounding rectangle and the largest array length that can be allocated.
  Without a container the call returns after the retry logic. With one it runs the cleanup
  of a previous run, which raises nothing, and then \<open>start_run\<close>, whose exception, if
  any, leaves \<open>startAnimation\<close> and the observer's callback.
\<close>

datatype container =
  Container (has_context: bool) (alloc_limit: nat) (rect_width: real) (rect_height: real)

definition startAnimation_raises :: "container option \<Rightarrow> js_error option" where
  "startAnimation_raises c =
     (case c of
        None \<Rightarrow> None
      | Some k \<Rightarrow>
          (case start_run (has_context k) (alloc_limit k) (rect_width k) (rect_height k) of
             Inl (e, s) \<Rightarrow> Some e
           | Inr s \<Rightarrow> None))"

text \<open>
  The observers' effect is the list of start operations they call, in order, and the
  exception that ends the callback, if any. \<open>start_both\<close> is the statement sequence
  \<open>startAnimation(); startTypewriterAnimation();\<close>: the second call is reached when the
  first returns. \<open>startTypewriterAnimation\<close> raises nothing.
\<close>

datatype action = StartAnimation | StartTypewriterAnimation




text \<open>The same two observers in \<open>flowing-light.js\<close>, the script without the typewriter.\<close>

definition start_one :: "container option \<Rightarrow> action list \<times> js_error option" where
  "start_one c = ([StartAnimation], startAnimation_raises c)"

fun containerObserver_fl ::
  "container option \<Rightarrow> mutation list \<Rightarrow> action list \<times> js_error option" where
  "containerObserver_fl c [] = ([], None)"
| "containerObserver_fl c (ChildList ns # ms) =
     (if added_loop ns then start_one c else containerObserver_fl c ms)"
| "containerObserver_fl c (m # ms) = containerObserver_fl c ms"

definition urlObserver_fl ::
  "container option \<Rightarrow> string \<Rightarrow> string \<Rightarrow> string \<times> action list \<times> js_error option" where
  "urlObserver_fl c lastUrl url =
     (if url \<noteq> lastUrl then (url, start_one c) else (lastUrl, [], None))"

section \<open>Auxiliary definitions for the proofs\<close>

subsection \<open>The grid in closed form\<close>

text \<open>
  What the loops of \<open>resize\<close> are shown to leave in the array: row after row, and in each
  row the pair of every column.
\<close>

definition row_dots :: "nat \<Rightarrow> nat \<Rightarrow> real list" where
  "row_dots r n =
     concat (map (\<lambda>c. [real (toFloat32 (c * GRID_SIZE)), real (toFloat32 (r * GRID_SIZE))]) [0..<n])"

definition grid_dots :: "nat \<Rightarrow> nat \<Rightarrow> real list" where
  "grid_dots n m = concat (map (\<lambda>r. row_dots r n) [0..<m])"

text \<open>The length of the array that \<open>resize\<close> asks for, from the rectangle alone.\<close>

definition grid_length :: "real \<Rightarrow> real \<Rightarrow> nat" where
  "grid_length rw rh =
     nat \<lceil>real_of_int (max 1 (to_int32 rw)) / real GRID_SIZE\<rceil>
       * nat \<lceil>real_of_int (max 1 (to_int32 rh)) / real GRID_SIZE\<rceil> * 2"

text \<open>
  Three calls of \<open>resize\<close>, with a context and the most generous allocation limit: for a
  container of 60 by 30 pixels; then, in the state that call leaves, for one of 2147483647
  by 2147483647 pixels; and for one of 16777226 by 20 pixels.
\<close>

definition small_grid :: fl_state where
  "small_grid = state_of (resize MAX_SAFE_INTEGER 60 30 (fl_fresh True))"

definition huge_resize :: "(js_error \<times> fl_state) + fl_state" where
  "huge_resize = resize MAX_SAFE_INTEGER 2147483647 2147483647 small_grid"

definition wide_grid :: fl_state where
  "wide_grid = state_of (resize MAX_SAFE_INTEGER 16777226 20 (fl_fresh True))"

subsection \<open>The brightness as the specification words it\<close>

text \<open>
  A sine wave mapped into the unit interval, and the brightness of a dot at distance
  \<open>dst\<close> from the cursor at elapsed time \<open>t\<close>: the mean of three such waves plus the
  proximity boost, clamped to at most 1.
\<close>

definition unit_wave :: "real \<Rightarrow> real" where
  "unit_wave x = (sin x + 1) / 2"

definition brightness_spec :: "real \<Rightarrow> real \<Rightarrow> real" where
  "brightness_spec t dst =
     min 1 ((unit_wave (t * 0.8 - dst * 0.005) + unit_wave (t * 0.6 - dst * 0.004 + pi / 3)
               + unit_wave (t * 0.7 - dst * 0.006 + pi / 6)) / 3
            + max 0 (1 - dst / PROX_RADIUS) * 0.4)"

subsection \<open>Invariants of a flowing-light run\<close>

text \<open>At most one animation frame is requested, the one recorded in \<open>rafId\<close>.\<close>

definition one_frame :: "fl_state \<Rightarrow> bool" where
  "one_frame s = (frames s = [] \<or> frames s = [rafId s])"

text \<open>A run after its cleanup.\<close>

definition stopped :: "fl_state \<Rightarrow> bool" where
  "stopped s = (\<not> running s \<and> frames s = [] \<and> \<not> resizeListener s \<and> \<not> mousemoveListener s
                 \<and> \<not> canvasAttached s \<and> \<not> cleanupHandle s)"

subsection \<open>Executions of the typewriter\<close>

text \<open>
  Handles are positive, and a handle in \<open>typewriterInterval\<close> or in the timer table has
  been handed out already.
\<close>

definition handles_ok :: "tw_state \<Rightarrow> bool" where
  "handles_ok s = (0 < nextHandle s \<and> list_all (\<lambda>t. handle t < nextHandle s) (timers s)
                    \<and> (case typewriterInterval s of None \<Rightarrow> True | Some h \<Rightarrow> 0 < h))"

text \<open>
  The element is never there: a first call, then one retry timeout after the other fires.
  The \<open>n\<close>-th timeout has handle \<open>n\<close>.
\<close>

fun retry_trace :: "nat \<Rightarrow> event list" where
  "retry_trace 0 = [CallStart None]"
| "retry_trace (Suc n) = retry_trace n @ [Fire (Suc n) None]"

text \<open>
  One cycle with a second start in the pause after deleting. Times in milliseconds:
  the start at 0 creates interval 1 (every 150); it types the nine characters at 150 to
  1350 and at 1500 finds the text complete, clears itself and sets timeout 2 (5000). That
  fires at 6500 and creates interval 3 (every 50), which deletes the nine characters at 6550
  to 6950 and at 7000 finds the text empty, clears itself and sets timeout 4 (500). At 7010
  \<open>startTypewriterAnimation\<close> is called again, as the URL observer or
  \<open>window.hifiAnimations.startTypewriter\<close> does: \<open>typewriterInterval\<close> is \<open>null\<close>, so
  it creates interval 5 (every 150), which types at 7160, 7310 and 7460. At 7500 timeout 4
  fires and creates interval 6 (every 150).
\<close>

definition overlap_trace :: "event list" where
  "overlap_trace =
     CallStart (Some 0) # replicate 10 (Fire 1 None) @ [Fire 2 None] @ replicate 10 (Fire 3 None)
       @ [CallStart (Some 0)] @ replicate 3 (Fire 5 None) @ [Fire 4 None]"

text \<open>Then interval 5 fires at 7610, 7760, \<open>\<dots>\<close> and interval 6 at 7650, 7800, \<open>\<dots>\<close>\<close>

definition overtype_trace :: "event list" where
  "overtype_trace =
     overlap_trace @ [Fire 5 None, Fire 6 None, Fire 5 None, Fire 6 None, Fire 5 None,
                      Fire 6 None, Fire 5 None, Fire 6 None, Fire 5 None]"

text \<open>
  The first start, the nine characters and the tick that begins the pause of 5000 ms;
  4900 ms into the pause the animation is started again (interval 3), and at 5000 ms
  timeout 2 fires.
\<close>

definition pause_start_trace :: "event list" where
  "pause_start_trace =
     CallStart (Some 0) # replicate 10 (Fire 1 None) @ [CallStart (Some 0), Fire 2 None]"

text \<open>The first start, the nine characters and the tick that begins the pause.\<close>

definition typed_trace :: "event list" where
  "typed_trace = CallStart (Some 0) # replicate 10 (Fire 1 None)"

subsection \<open>Retries of startAnimation while the container is missing\<close>

definition all_missing :: "boot_event list \<Rightarrow> bool" where
  "all_missing es =
     list_all (\<lambda>e. case e of CallStartAnimation f \<Rightarrow> \<not> f | FireRetry k f \<Rightarrow> \<not> f) es"

definition retry_inv :: "boot_state \<Rightarrow> bool" where
  "retry_inv b = (retryCount b \<le> MAX_RETRIES \<and> nextRetry b = retryCount b + 1
                   \<and> list_all (\<lambda>t. snd t \<le> 500) (retries b))"

subsection \<open>One timer chain\<close>

text \<open>
  The intervals and the pause timeouts of the timer table; whether an event calls
  \<open>startTypewriterAnimation\<close> with the element on the page; the executions in which no
  such call falls into a pause; and what holds of the typewriter throughout them.
\<close>

definition ticks :: "tw_state \<Rightarrow> timer list" where
  "ticks s = filter (\<lambda>t. callback t = TypewriterTick) (timers s)"

definition pauses :: "tw_state \<Rightarrow> timer list" where
  "pauses s = filter (\<lambda>t. callback t = PauseAfterType \<or> callback t = PauseAfterDelete) (timers s)"

fun start_request :: "tw_state \<Rightarrow> event \<Rightarrow> bool" where
  "start_request s (CallStart q) = (q \<noteq> None)"
| "start_request s CallStop = False"
| "start_request s (Fire h q) =
     (q \<noteq> None \<and> (case find (\<lambda>t. handle t = h) (timers s) of
                      None \<Rightarrow> False | Some t \<Rightarrow> callback t = RetryStart))"

fun no_start_in_pause :: "tw_state \<Rightarrow> event list \<Rightarrow> bool" where
  "no_start_in_pause s [] = True"
| "no_start_in_pause s (e # es) =
     ((start_request s e \<longrightarrow> pauses s = []) \<and> no_start_in_pause (step s e) es)"

definition chain_inv :: "tw_state \<Rightarrow> bool" where
  "chain_inv s =
     (handles_ok s
      \<and> length (ticks s) + length (pauses s) \<le> 1
      \<and> list_all (\<lambda>t. typewriterInterval s = Some (handle t) \<and> repeating t) (ticks s)
      \<and> list_all (\<lambda>t. \<not> repeating t) (pauses s)
      \<and> prefix (currentText s) TYPEWRITER_text
      \<and> (isTyping s \<longrightarrow> currentText s = take (currentIndex s) TYPEWRITER_text \<and> pauses s = [])
      \<and> (list_ex (\<lambda>t. callback t = PauseAfterDelete) (timers s) \<longrightarrow> currentText s = []))"

section \<open>The typewriter: timer handles\<close>

lemma list_all_filter: "list_all P ts \<Longrightarrow> list_all P (filter Q ts)"
  by (induction ts) auto

lemma handles_ok_init: "handles_ok tw_init"
  by (simp add: handles_ok_def tw_init_def)

lemma list_all_less_Suc:
  "list_all (\<lambda>t. handle t < n) ts \<Longrightarrow> list_all (\<lambda>t. handle t < Suc n) ts"
  by (induction ts) auto

lemma handles_ok_start: "handles_ok s \<Longrightarrow> handles_ok (startTypewriterAnimation q s)"
  by (auto simp: handles_ok_def startTypewriterAnimation_def Let_def setTimeout_def
      setInterval_def list_all_less_Suc split: option.splits)

lemma handles_ok_tick: "handles_ok s \<Longrightarrow> handles_ok (typewriterTick s)"
  by (auto simp: handles_ok_def typewriterTick_def Let_def setTimeout_def clearInterval_def
      set_textContent_def list_all_less_Suc list_all_filter split: option.splits)

lemma handles_ok_pauses:
  "handles_ok s \<Longrightarrow> handles_ok (afterTypePause s)"
  "handles_ok s \<Longrightarrow> handles_ok (afterDeletePause s)"
  by (auto simp: handles_ok_def afterTypePause_def afterDeletePause_def Let_def setInterval_def
      list_all_less_Suc split: option.splits)

lemma handles_ok_stop: "handles_ok s \<Longrightarrow> handles_ok (stopTypewriterAnimation s)"
  by (auto simp: handles_ok_def stopTypewriterAnimation_def Let_def clearInterval_def
      list_all_filter split: option.splits)

lemma handles_ok_drop: "handles_ok s \<Longrightarrow> handles_ok (s\<lparr>timers := filter Q (timers s)\<rparr>)"
  by (auto simp: handles_ok_def list_all_filter split: option.splits)

lemma handles_ok_step: "handles_ok s \<Longrightarrow> handles_ok (step s e)"
proof (cases e)
  case (CallStart q)
  assume "handles_ok s"
  then show ?thesis by (simp add: CallStart handles_ok_start)
next
  case CallStop
  assume "handles_ok s"
  then show ?thesis by (simp add: CallStop handles_ok_stop)
next
  case (Fire h q)
  assume ok: "handles_ok s"
  show ?thesis
  proof (cases "find (\<lambda>t. handle t = h) (timers s)")
    case None
    with ok show ?thesis by (simp add: Fire fire_def)
  next
    case (Some t)
    let ?s = "if repeating t then s else s\<lparr>timers := filter (\<lambda>t. handle t \<noteq> h) (timers s)\<rparr>"
    from ok have "handles_ok ?s" by (simp add: handles_ok_drop)
    then have "handles_ok (run_callback (callback t) q ?s)"
      by (cases "callback t") (simp_all add: handles_ok_tick handles_ok_start handles_ok_pauses)
    with Some show ?thesis by (simp add: Fire fire_def)
  qed
qed

lemma handles_ok_run: "handles_ok s \<Longrightarrow> handles_ok (run es s)"
  unfolding run_def by (induction es arbitrary: s) (simp_all add: handles_ok_step)

section \<open>The typewriter with one timer chain\<close>

text \<open>
  As long as \<open>startTypewriterAnimation\<close> is not called with the element on the page
  while a pause timeout is pending, the typewriter has at most one interval, the one in
  \<open>typewriterInterval\<close>, and never an interval next to a pause timeout; while typing
  the text is the first \<open>currentIndex\<close> characters of the target, and it is always a
  prefix of it. Stops, starts that miss the element and ticks of any live timer are free.
\<close>

lemma chain_inv_init: "chain_inv tw_init"
  by (simp add: chain_inv_def handles_ok_def tw_init_def ticks_def pauses_def)

lemma chain_inv_start:
  assumes "chain_inv s" and "q \<noteq> None \<longrightarrow> pauses s = []"
  shows "chain_inv (startTypewriterAnimation q s)"
proof -
  from assms(1) have ok: "handles_ok (startTypewriterAnimation q s)"
    by (simp add: chain_inv_def handles_ok_start)
  show ?thesis
  proof (cases q)
    case None
    with assms(1) ok show ?thesis
      by (simp add: chain_inv_def startTypewriterAnimation_def setTimeout_def ticks_def pauses_def)
  next
    case (Some x)
    show ?thesis
    proof (cases "truthy (typewriterInterval s)")
      case True
      with assms(1) ok Some show ?thesis
        by (simp add: chain_inv_def startTypewriterAnimation_def ticks_def pauses_def)
    next
      case False
      with assms(1) have "typewriterInterval s = None"
        by (auto simp: chain_inv_def handles_ok_def truthy_def split: option.splits)
      with assms(1) have "ticks s = []"
        by (cases "ticks s") (auto simp: chain_inv_def)
      moreover from assms(2) Some have "pauses s = []" by simp
      ultimately show ?thesis using ok Some False
        unfolding chain_inv_def
        by (simp add: startTypewriterAnimation_def Let_def setInterval_def ticks_def pauses_def)
    qed
  qed
qed


lemma chain_invI:
  assumes "handles_ok s" and "length (ticks s) + length (pauses s) \<le> 1"
    and "list_all (\<lambda>t. typewriterInterval s = Some (handle t) \<and> repeating t) (ticks s)"
    and "prefix (currentText s) TYPEWRITER_text"
    and "isTyping s \<Longrightarrow> currentText s = take (currentIndex s) TYPEWRITER_text \<and> pauses s = []"
    and "list_ex (\<lambda>t. callback t = PauseAfterDelete) (timers s) \<Longrightarrow> currentText s = []"
    and "list_all (\<lambda>t. \<not> repeating t) (pauses s)"
  shows "chain_inv s"
  using assms unfolding chain_inv_def by blast

lemma chain_invD:
  assumes "chain_inv s"
  shows "handles_ok s" and "length (ticks s) + length (pauses s) \<le> 1"
    and "list_all (\<lambda>t. typewriterInterval s = Some (handle t) \<and> repeating t) (ticks s)"
    and "prefix (currentText s) TYPEWRITER_text"
    and "isTyping s \<Longrightarrow> currentText s = take (currentIndex s) TYPEWRITER_text"
    and "isTyping s \<Longrightarrow> pauses s = []"
    and "list_ex (\<lambda>t. callback t = PauseAfterDelete) (timers s) \<Longrightarrow> currentText s = []"
    and "list_all (\<lambda>t. \<not> repeating t) (pauses s)"
  using assms unfolding chain_inv_def by blast+

lemma list_ex_filter: "list_ex P (filter Q ts) \<Longrightarrow> list_ex P ts"
  by (induction ts) (auto split: if_splits)

lemma list_ex_cleared: "list_ex P (timers (clearInterval h s)) \<Longrightarrow> list_ex P (timers s)"
  by (cases h) (auto simp: clearInterval_def list_ex_iff)

lemma recorded_ticks_cleared:
  "list_all (\<lambda>t. Some h = Some (handle t) \<and> repeating t) ts \<Longrightarrow>
     filter (\<lambda>t. handle t \<noteq> h) ts = []"
  by (induction ts) auto

lemma ticks_drop: "ticks (s\<lparr>timers := filter Q (timers s)\<rparr>) = filter Q (ticks s)"
  by (auto simp: ticks_def intro: filter_cong)

lemma pauses_drop: "pauses (s\<lparr>timers := filter Q (timers s)\<rparr>) = filter Q (pauses s)"
  by (auto simp: pauses_def intro: filter_cong)

lemma chain_inv_drop:
  assumes "chain_inv s"
  shows "chain_inv (s\<lparr>timers := filter Q (timers s)\<rparr>)"
proof (rule chain_invI)
  let ?s = "s\<lparr>timers := filter Q (timers s)\<rparr>"
  note inv = chain_invD [OF assms]
  show "handles_ok ?s" using inv(1) by (rule handles_ok_drop)
  have "length (filter Q (ticks s)) \<le> length (ticks s)"
    and "length (filter Q (pauses s)) \<le> length (pauses s)"
    by (rule length_filter_le)+
  with inv(2) show "length (ticks ?s) + length (pauses ?s) \<le> 1"
    unfolding ticks_drop pauses_drop by linarith
  from inv(3) show "list_all (\<lambda>t. typewriterInterval ?s = Some (handle t) \<and> repeating t) (ticks ?s)"
    unfolding ticks_drop by (simp add: list_all_filter)
  from inv(8) show "list_all (\<lambda>t. \<not> repeating t) (pauses ?s)"
    unfolding pauses_drop by (rule list_all_filter)
  from inv(4) show "prefix (currentText ?s) TYPEWRITER_text" by simp
  show "currentText ?s = take (currentIndex ?s) TYPEWRITER_text \<and> pauses ?s = []" if "isTyping ?s"
    using that inv(5,6) unfolding pauses_drop by simp
  show "currentText ?s = []" if "list_ex (\<lambda>t. callback t = PauseAfterDelete) (timers ?s)"
  proof -
    from that have "list_ex (\<lambda>t. callback t = PauseAfterDelete) (filter Q (timers s))"
      by simp
    then have "list_ex (\<lambda>t. callback t = PauseAfterDelete) (timers s)"
      by (rule list_ex_filter)
    with inv(7) show ?thesis by simp
  qed
qed

text \<open>With a tick or a pause in the table, clearing the recorded interval leaves neither.\<close>

lemma cleared_ticks:
  assumes "chain_inv s"
  shows "ticks (clearInterval (typewriterInterval s) s) = []"
proof (cases "typewriterInterval s")
  case None
  with chain_invD(3) [OF assms] have "ticks s = []" by (cases "ticks s") simp_all
  with None show ?thesis by (simp add: clearInterval_def ticks_def)
next
  case (Some h)
  with chain_invD(3) [OF assms]
  have "list_all (\<lambda>t. Some h = Some (handle t) \<and> repeating t) (ticks s)" by simp
  then have "filter (\<lambda>t. handle t \<noteq> h) (ticks s) = []" by (rule recorded_ticks_cleared)
  with Some show ?thesis by (simp add: clearInterval_def ticks_drop)
qed

lemma cleared_pauses:
  "length (pauses (clearInterval h s)) \<le> length (pauses s)"
  by (cases h) (simp_all add: clearInterval_def pauses_drop)


lemma set_textContent_keeps:
  "timers (set_textContent v s) = timers s"
  "typewriterInterval (set_textContent v s) = typewriterInterval s"
  "isTyping (set_textContent v s) = isTyping s"
  "currentIndex (set_textContent v s) = currentIndex s"
  "currentText (set_textContent v s) = currentText s"
  by (cases "typewriterElement s"; simp add: set_textContent_def)+

lemma clearInterval_keeps:
  "isTyping (clearInterval h s) = isTyping s"
  "currentText (clearInterval h s) = currentText s"
  "nextHandle (clearInterval h s) = nextHandle s"
  by (cases h; simp add: clearInterval_def)+

lemma clearInterval_timers:
  "timers (clearInterval h (s\<lparr>isTyping := b\<rparr>)) = timers (clearInterval h s)"
  "timers (clearInterval h (s\<lparr>isDeleting := b\<rparr>)) = timers (clearInterval h s)"
  by (cases h; simp add: clearInterval_def)+

lemma tick_typing:
  "isTyping s \<Longrightarrow> currentIndex s < length TYPEWRITER_text \<Longrightarrow>
     typewriterTick s =
       set_textContent (currentText s @ [TYPEWRITER_text ! currentIndex s])
         (s\<lparr>currentText := currentText s @ [TYPEWRITER_text ! currentIndex s],
            currentIndex := currentIndex s + 1\<rparr>)"
  by (simp add: typewriterTick_def Let_def)

lemma tick_typed:
  "isTyping s \<Longrightarrow> \<not> currentIndex s < length TYPEWRITER_text \<Longrightarrow>
     typewriterTick s =
       snd (setTimeout PauseAfterType pauseDuration
              ((clearInterval (typewriterInterval s) (s\<lparr>isTyping := False\<rparr>))
                 \<lparr>typewriterInterval := None\<rparr>))"
  by (simp add: typewriterTick_def Let_def)

lemma tick_deleting:
  "\<not> isTyping s \<Longrightarrow> isDeleting s \<Longrightarrow> currentText s \<noteq> [] \<Longrightarrow>
     typewriterTick s =
       set_textContent (butlast (currentText s)) (s\<lparr>currentText := butlast (currentText s)\<rparr>)"
  by (simp add: typewriterTick_def Let_def)

lemma tick_deleted:
  "\<not> isTyping s \<Longrightarrow> isDeleting s \<Longrightarrow> currentText s = [] \<Longrightarrow>
     typewriterTick s =
       snd (setTimeout PauseAfterDelete deletePause
              ((clearInterval (typewriterInterval s) (s\<lparr>isDeleting := False\<rparr>))
                 \<lparr>typewriterInterval := None\<rparr>))"
  by (simp add: typewriterTick_def Let_def)

lemma pause_delete_pending:
  "list_ex (\<lambda>t. callback t = PauseAfterDelete) (timers s) \<Longrightarrow> pauses s \<noteq> []"
  by (auto simp: pauses_def list_ex_iff filter_empty_conv)

lemma chain_inv_tick:
  assumes "chain_inv s" and "ticks s \<noteq> []"
  shows "chain_inv (typewriterTick s)"
proof -
  note inv = chain_invD [OF assms(1)]
  from inv(1) have ok: "handles_ok (typewriterTick s)" by (rule handles_ok_tick)
  from assms(2) inv(2) have nop: "pauses s = []" by (cases "ticks s") simp_all
  then have nodel: "\<not> list_ex (\<lambda>t. callback t = PauseAfterDelete) (timers s)"
    using pause_delete_pending by blast
  consider (type) "isTyping s" "currentIndex s < length TYPEWRITER_text"
    | (typed) "isTyping s" "\<not> currentIndex s < length TYPEWRITER_text"
    | (delete) "\<not> isTyping s" "isDeleting s" "currentText s \<noteq> []"
    | (deleted) "\<not> isTyping s" "isDeleting s" "currentText s = []"
    | (idle) "\<not> isTyping s" "\<not> isDeleting s"
    by blast
  then show ?thesis
  proof cases
    case type
    let ?s = "typewriterTick s"
    have f: "timers ?s = timers s" "typewriterInterval ?s = typewriterInterval s"
      "isTyping ?s = isTyping s" "currentIndex ?s = Suc (currentIndex s)"
      "currentText ?s = currentText s @ [TYPEWRITER_text ! currentIndex s]"
      unfolding tick_typing [OF type] by (simp_all add: set_textContent_keeps)
    have tp: "ticks ?s = ticks s" "pauses ?s = pauses s" by (simp_all add: ticks_def pauses_def f)
    have typed_text: "currentText ?s = take (currentIndex ?s) TYPEWRITER_text"
      unfolding f using inv(5) [OF type(1)] type(2) by (simp add: take_Suc_conv_app_nth)
    show ?thesis
    proof (rule chain_invI)
      show "handles_ok ?s" by (rule ok)
      show "length (ticks ?s) + length (pauses ?s) \<le> 1" unfolding tp by (rule inv(2))
      show "list_all (\<lambda>t. typewriterInterval ?s = Some (handle t) \<and> repeating t) (ticks ?s)"
        unfolding tp f by (rule inv(3))
      show "prefix (currentText ?s) TYPEWRITER_text" unfolding typed_text by (rule take_is_prefix)
      show "currentText ?s = take (currentIndex ?s) TYPEWRITER_text \<and> pauses ?s = []"
        using typed_text nop tp by simp
      show "currentText ?s = []" if "list_ex (\<lambda>t. callback t = PauseAfterDelete) (timers ?s)"
        using that nodel unfolding f by simp
      show "list_all (\<lambda>t. \<not> repeating t) (pauses ?s)" unfolding tp by (rule inv(8))
    qed
  next
    case typed
    let ?c = "clearInterval (typewriterInterval s) s"
    let ?s = "typewriterTick s"
    have tm: "timers ?s = timers ?c @ [Timer (nextHandle s) False PauseAfterType pauseDuration]"
      and f: "typewriterInterval ?s = None" "isTyping ?s = False" "currentText ?s = currentText s"
      unfolding tick_typed [OF typed]
      by (simp_all add: setTimeout_def clearInterval_keeps clearInterval_timers)
    have t: "ticks ?s = []"
      using cleared_ticks [OF assms(1)] by (simp add: ticks_def tm)
    have "pauses ?c = []" using nop by (cases "typewriterInterval s") (simp_all add: clearInterval_def pauses_drop)
    then have p: "pauses ?s = [Timer (nextHandle s) False PauseAfterType pauseDuration]"
      by (simp add: pauses_def tm)
    show ?thesis
    proof (rule chain_invI)
      show "handles_ok ?s" by (rule ok)
      show "length (ticks ?s) + length (pauses ?s) \<le> 1" by (simp add: t p)
      show "list_all (\<lambda>t. typewriterInterval ?s = Some (handle t) \<and> repeating t) (ticks ?s)"
        by (simp add: t)
      show "prefix (currentText ?s) TYPEWRITER_text" unfolding f by (rule inv(4))
      show "currentText ?s = take (currentIndex ?s) TYPEWRITER_text \<and> pauses ?s = []" if "isTyping ?s"
        using that f by simp
      show "currentText ?s = []" if "list_ex (\<lambda>t. callback t = PauseAfterDelete) (timers ?s)"
      proof -
        from that have "list_ex (\<lambda>t. callback t = PauseAfterDelete) (timers ?c)" by (simp add: tm)
        then have "list_ex (\<lambda>t. callback t = PauseAfterDelete) (timers s)"
          by (rule list_ex_cleared)
        with nodel show ?thesis by simp
      qed
      show "list_all (\<lambda>t. \<not> repeating t) (pauses ?s)" by (simp add: p)
    qed
  next
    case delete
    let ?s = "typewriterTick s"
    have f: "timers ?s = timers s" "typewriterInterval ?s = typewriterInterval s"
      "isTyping ?s = False" "currentText ?s = butlast (currentText s)"
      unfolding tick_deleting [OF delete] using delete(1) by (simp_all add: set_textContent_keeps)
    have tp: "ticks ?s = ticks s" "pauses ?s = pauses s" by (simp_all add: ticks_def pauses_def f)
    show ?thesis
    proof (rule chain_invI)
      show "handles_ok ?s" by (rule ok)
      show "length (ticks ?s) + length (pauses ?s) \<le> 1" unfolding tp by (rule inv(2))
      show "list_all (\<lambda>t. typewriterInterval ?s = Some (handle t) \<and> repeating t) (ticks ?s)"
        unfolding tp f by (rule inv(3))
      have "prefix (butlast (currentText s)) (currentText s)" by (rule prefixeq_butlast)
      then show "prefix (currentText ?s) TYPEWRITER_text"
        unfolding f using inv(4) by (rule prefix_order.trans)
      show "currentText ?s = take (currentIndex ?s) TYPEWRITER_text \<and> pauses ?s = []" if "isTyping ?s"
        using that f by simp
      show "currentText ?s = []" if "list_ex (\<lambda>t. callback t = PauseAfterDelete) (timers ?s)"
        using that nodel unfolding f by simp
      show "list_all (\<lambda>t. \<not> repeating t) (pauses ?s)" unfolding tp by (rule inv(8))
    qed
  next
    case deleted
    let ?c = "clearInterval (typewriterInterval s) s"
    let ?s = "typewriterTick s"
    have tm: "timers ?s = timers ?c @ [Timer (nextHandle s) False PauseAfterDelete deletePause]"
      and f: "typewriterInterval ?s = None" "isTyping ?s = False" "currentText ?s = []"
      unfolding tick_deleted [OF deleted] using deleted(1,3)
      by (simp_all add: setTimeout_def clearInterval_keeps clearInterval_timers)
    have t: "ticks ?s = []"
      using cleared_ticks [OF assms(1)] by (simp add: ticks_def tm)
    have "pauses ?c = []" using nop by (cases "typewriterInterval s") (simp_all add: clearInterval_def pauses_drop)
    then have p: "pauses ?s = [Timer (nextHandle s) False PauseAfterDelete deletePause]"
      by (simp add: pauses_def tm)
    show ?thesis
    proof (rule chain_invI)
      show "handles_ok ?s" by (rule ok)
      show "length (ticks ?s) + length (pauses ?s) \<le> 1" by (simp add: t p)
      show "list_all (\<lambda>t. typewriterInterval ?s = Some (handle t) \<and> repeating t) (ticks ?s)"
        by (simp add: t)
      show "prefix (currentText ?s) TYPEWRITER_text" by (simp add: f)
      show "currentText ?s = take (currentIndex ?s) TYPEWRITER_text \<and> pauses ?s = []" if "isTyping ?s"
        using that f by simp
      show "currentText ?s = []" if "list_ex (\<lambda>t. callback t = PauseAfterDelete) (timers ?s)"
        by (rule f)
      show "list_all (\<lambda>t. \<not> repeating t) (pauses ?s)" by (simp add: p)
    qed
  next
    case idle
    then have "typewriterTick s = s" by (simp add: typewriterTick_def)
    with assms(1) show ?thesis by simp
  qed
qed


lemma chain_inv_afterTypePause:
  assumes "chain_inv s" and "ticks s = []" and "pauses s = []" and "\<not> isTyping s"
  shows "chain_inv (afterTypePause s)"
proof (rule chain_invI)
  let ?s = "afterTypePause s"
  note inv = chain_invD [OF assms(1)]
  have tm: "timers ?s = timers s @ [Timer (nextHandle s) True TypewriterTick deleteSpeed]"
    and f: "typewriterInterval ?s = Some (nextHandle s)" "isTyping ?s = isTyping s"
      "currentText ?s = currentText s"
    by (simp_all add: afterTypePause_def Let_def setInterval_def)
  have t: "ticks ?s = [Timer (nextHandle s) True TypewriterTick deleteSpeed]"
    using assms(2) by (simp add: ticks_def tm)
  have p: "pauses ?s = []" using assms(3) by (simp add: pauses_def tm)
  show "handles_ok ?s" using inv(1) by (rule handles_ok_pauses)
  show "length (ticks ?s) + length (pauses ?s) \<le> 1" by (simp add: t p)
  show "list_all (\<lambda>t. typewriterInterval ?s = Some (handle t) \<and> repeating t) (ticks ?s)"
    by (simp add: t f)
  show "prefix (currentText ?s) TYPEWRITER_text" unfolding f by (rule inv(4))
  show "currentText ?s = take (currentIndex ?s) TYPEWRITER_text \<and> pauses ?s = []" if "isTyping ?s"
    using that assms(4) f by simp
  show "currentText ?s = []" if "list_ex (\<lambda>t. callback t = PauseAfterDelete) (timers ?s)"
  proof -
    from that have "list_ex (\<lambda>t. callback t = PauseAfterDelete) (timers s)" by (simp add: tm)
    with inv(7) f show ?thesis by simp
  qed
  show "list_all (\<lambda>t. \<not> repeating t) (pauses ?s)" by (simp add: p)
qed

lemma chain_inv_afterDeletePause:
  assumes "chain_inv s" and "ticks s = []" and "pauses s = []" and "currentText s = []"
  shows "chain_inv (afterDeletePause s)"
proof (rule chain_invI)
  let ?s = "afterDeletePause s"
  note inv = chain_invD [OF assms(1)]
  have tm: "timers ?s = timers s @ [Timer (nextHandle s) True TypewriterTick typeSpeed]"
    and f: "typewriterInterval ?s = Some (nextHandle s)" "isTyping ?s" "currentIndex ?s = 0"
      "currentText ?s = currentText s"
    by (simp_all add: afterDeletePause_def Let_def setInterval_def loop_def)
  have t: "ticks ?s = [Timer (nextHandle s) True TypewriterTick typeSpeed]"
    using assms(2) by (simp add: ticks_def tm)
  have p: "pauses ?s = []" using assms(3) by (simp add: pauses_def tm)
  show "handles_ok ?s" using inv(1) by (rule handles_ok_pauses)
  show "length (ticks ?s) + length (pauses ?s) \<le> 1" by (simp add: t p)
  show "list_all (\<lambda>t. typewriterInterval ?s = Some (handle t) \<and> repeating t) (ticks ?s)"
    by (simp add: t f)
  show "prefix (currentText ?s) TYPEWRITER_text" by (simp add: f assms(4))
  show "currentText ?s = take (currentIndex ?s) TYPEWRITER_text \<and> pauses ?s = []"
    by (simp add: f assms(4) p)
  show "currentText ?s = []" by (simp add: f assms(4))
  show "list_all (\<lambda>t. \<not> repeating t) (pauses ?s)" by (simp add: p)
qed

lemma chain_inv_stop:
  assumes "chain_inv s"
  shows "chain_inv (stopTypewriterAnimation s)"
proof (rule chain_invI)
  let ?s = "stopTypewriterAnimation s"
  let ?c = "clearInterval (typewriterInterval s) s"
  note inv = chain_invD [OF assms]
  have tr: "truthy (typewriterInterval s) \<or> typewriterInterval s = None"
    using inv(1) by (auto simp: handles_ok_def truthy_def split: option.splits)
  then have tm: "timers ?s = timers ?c"
    and f: "typewriterInterval ?s = None" "isTyping ?s = isTyping s"
      "currentText ?s = currentText s" "currentIndex ?s = currentIndex s"
    by (auto simp: stopTypewriterAnimation_def Let_def clearInterval_def truthy_def
        split: option.splits)
  have t: "ticks ?s = []" using cleared_ticks [OF assms] by (simp add: ticks_def tm)
  have p: "pauses ?s = pauses ?c" by (simp add: pauses_def tm)
  have pc: "pauses ?c = pauses s \<or> (\<exists>Q. pauses ?c = filter Q (pauses s))"
    by (cases "typewriterInterval s") (auto simp: clearInterval_def pauses_drop)
  show "handles_ok ?s" using inv(1) by (rule handles_ok_stop)
  have "length (pauses ?c) \<le> length (pauses s)" by (rule cleared_pauses)
  with inv(2) show "length (ticks ?s) + length (pauses ?s) \<le> 1" by (simp add: t p)
  show "list_all (\<lambda>t. typewriterInterval ?s = Some (handle t) \<and> repeating t) (ticks ?s)"
    by (simp add: t)
  show "prefix (currentText ?s) TYPEWRITER_text" unfolding f by (rule inv(4))
  show "currentText ?s = take (currentIndex ?s) TYPEWRITER_text \<and> pauses ?s = []" if "isTyping ?s"
    using that inv(5,6) pc unfolding f p by auto
  show "currentText ?s = []" if "list_ex (\<lambda>t. callback t = PauseAfterDelete) (timers ?s)"
  proof -
    from that have "list_ex (\<lambda>t. callback t = PauseAfterDelete) (timers s)"
      unfolding tm by (rule list_ex_cleared)
    with inv(7) f show ?thesis by simp
  qed
  show "list_all (\<lambda>t. \<not> repeating t) (pauses ?s)"
    using inv(8) pc unfolding p by (auto simp: list_all_filter)
qed

lemma found_timer:
  "find (\<lambda>t. handle t = h) ts = Some t \<Longrightarrow> t \<in> set ts \<and> handle t = h"
  by (induction ts) (auto split: if_splits)

lemma chain_inv_fire:
  assumes "chain_inv s" and "start_request s (Fire h q) \<longrightarrow> pauses s = []"
  shows "chain_inv (fire h q s)"
proof (cases "find (\<lambda>t. handle t = h) (timers s)")
  case None
  with assms(1) show ?thesis by (simp add: fire_def)
next
  case (Some t)
  note inv = chain_invD [OF assms(1)]
  from found_timer [OF Some] have mem: "t \<in> set (timers s)" and ht: "handle t = h" by simp_all
  let ?d = "s\<lparr>timers := filter (\<lambda>t. handle t \<noteq> h) (timers s)\<rparr>"
  let ?s = "if repeating t then s else ?d"
  have d: "chain_inv ?d" using assms(1) by (rule chain_inv_drop)
  have res: "fire h q s = run_callback (callback t) q ?s" using Some by (simp add: fire_def)
  show ?thesis
  proof (cases "callback t")
    case TypewriterTick
    with mem have tin: "t \<in> set (ticks s)" by (simp add: ticks_def)
    with inv(3) have "repeating t" by (auto simp: list_all_iff)
    moreover from tin have "ticks s \<noteq> []" by auto
    ultimately show ?thesis
      unfolding res using TypewriterTick assms(1) by (simp add: chain_inv_tick)
  next
    case RetryStart
    have "q \<noteq> None \<longrightarrow> pauses ?s = []"
      using assms(2) Some RetryStart by (simp add: pauses_drop)
    moreover have "chain_inv ?s" using assms(1) d by simp
    ultimately show ?thesis
      unfolding res using RetryStart by (simp add: chain_inv_start del: One_nat_def)
  next
    case PauseAfterType
    with mem have pin: "t \<in> set (pauses s)" by (simp add: pauses_def)
    with inv(8) have nr: "\<not> repeating t" by (auto simp: list_all_iff)
    from pin obtain ps where ps: "pauses s = t # ps" "ps = []"
      using inv(2) by (cases "pauses s") auto
    with inv(2) have t0: "ticks s = []" by simp
    have p0: "pauses ?d = []" unfolding pauses_drop ps using ht by simp
    have t1: "ticks ?d = []" unfolding ticks_drop t0 by simp
    from inv(6) ps have nt: "\<not> isTyping ?d" by auto
    from chain_inv_afterTypePause [OF d t1 p0 nt] show ?thesis
      unfolding res using PauseAfterType nr by simp
  next
    case PauseAfterDelete
    with mem have pin: "t \<in> set (pauses s)" by (simp add: pauses_def)
    with inv(8) have nr: "\<not> repeating t" by (auto simp: list_all_iff)
    from pin obtain ps where ps: "pauses s = t # ps" "ps = []"
      using inv(2) by (cases "pauses s") auto
    with inv(2) have t0: "ticks s = []" by simp
    have p0: "pauses ?d = []" unfolding pauses_drop ps using ht by simp
    have t1: "ticks ?d = []" unfolding ticks_drop t0 by simp
    from mem PauseAfterDelete have "list_ex (\<lambda>t. callback t = PauseAfterDelete) (timers s)"
      by (auto simp: list_ex_iff)
    with inv(7) have e: "currentText ?d = []" by simp
    from chain_inv_afterDeletePause [OF d t1 p0 e] show ?thesis
      unfolding res using PauseAfterDelete nr by simp
  qed
qed

lemma chain_inv_step:
  assumes "chain_inv s" and "start_request s e \<longrightarrow> pauses s = []"
  shows "chain_inv (step s e)"
proof (cases e)
  case (CallStart q)
  with assms show ?thesis by (simp add: chain_inv_start)
next
  case CallStop
  with assms show ?thesis by (simp add: chain_inv_stop)
next
  case (Fire h q)
  with assms show ?thesis by (simp add: chain_inv_fire del: start_request.simps)
qed

lemma chain_inv_run:
  "chain_inv s \<Longrightarrow> no_start_in_pause s es \<Longrightarrow> chain_inv (run es s)"
  unfolding run_def
  by (induction es arbitrary: s) (simp_all add: chain_inv_step del: start_request.simps)

lemma single_chain:
  assumes "no_start_in_pause tw_init es"
  shows "prefix (currentText (run es tw_init)) TYPEWRITER_text
       \<and> length (currentText (run es tw_init)) \<le> length TYPEWRITER_text
       \<and> length (ticks (run es tw_init)) \<le> 1"
proof -
  from chain_inv_run [OF chain_inv_init assms] have inv: "chain_inv (run es tw_init)" .
  from chain_invD(4) [OF inv] have "length (currentText (run es tw_init)) \<le> length TYPEWRITER_text"
    by (rule prefix_length_le)
  with chain_invD(2,4) [OF inv] show ?thesis by simp
qed

text \<open>A whole cycle and the start of the next one, with a start while the interval runs.\<close>

lemma single_chain_cycle:
  "no_start_in_pause tw_init
     (CallStart (Some 0) # replicate 10 (Fire 1 None) @ [Fire 2 None] @ replicate 10 (Fire 3 None)
        @ [Fire 4 None, Fire 5 None, CallStart (Some 0), CallStop])"
  by code_simp

section \<open>The typewriter: executions with a second start in a pause\<close>

text \<open>
  \<open>startTypewriterAnimation\<close> refuses to start while \<open>typewriterInterval\<close> holds a
  handle. In the two pauses the variable is \<open>null\<close> although a timeout of the running
  animation is pending, so a start in a pause goes through, and the timeout later creates
  a second interval next to the one of that start. Such a start is what \<open>single_chain\<close>
  excludes.
\<close>

lemma start_while_running:
  "truthy (typewriterInterval s) \<Longrightarrow>
     startTypewriterAnimation (Some e) s = s\<lparr>typewriterElement := Some e\<rparr>"
  by (simp add: startTypewriterAnimation_def Let_def)

text \<open>
  Claim C1: in every reachable state of the typewriter the displayed string
  \<open>currentText\<close> is at most as long as the target text. The execution \<open>overtype_trace\<close>
  ends with the twelve characters \<open>HIFHIFI DOCS\<close> in \<open>currentText\<close> and on the page,
  three more than the target text has.
\<close>

theorem typewriter_text_overlong:
  "currentText (run overtype_trace tw_init) = ''HIFHIFI DOCS''
   \<and> textContent (run overtype_trace tw_init) 0 = Some ''HIFHIFI DOCS''
   \<and> length TYPEWRITER_text < length (currentText (run overtype_trace tw_init))"
proof -
  have a: "currentText (run overtype_trace tw_init) = ''HIFHIFI DOCS''" by code_simp
  have b: "textContent (run overtype_trace tw_init) 0 = Some ''HIFHIFI DOCS''" by code_simp
  show ?thesis unfolding a b by (simp add: TYPEWRITER_text_def)
qed

text \<open>
  Claim C2: at every point of every execution at most one typewriter interval is active.
  In \<open>pause_start_trace\<close> the second start finds \<open>typewriterInterval\<close> empty while the
  pause timeout is pending; after that timeout has fired, intervals 3 and 4 are both live.
\<close>

theorem typewriter_two_intervals:
  "typewriterInterval (run (butlast (butlast pause_start_trace)) tw_init) = None
   \<and> timers (run (butlast (butlast pause_start_trace)) tw_init) = [Timer 2 False PauseAfterType 5000]
   \<and> timers (run pause_start_trace tw_init)
       = [Timer 3 True TypewriterTick 150, Timer 4 True TypewriterTick 50]"
  by code_simp

text \<open>
  Claim C9: in every reachable state \<open>currentText\<close> is a prefix of the target text.
  After \<open>overlap_trace\<close> the text is \<open>HIF\<close> and the index is back at 0, so the next tick
  appends the first character again: \<open>HIFH\<close> is no prefix of \<open>HIFI DOCS\<close>.
\<close>

theorem typewriter_text_not_prefix:
  "currentText (run (overlap_trace @ [Fire 5 None]) tw_init) = ''HIFH''
   \<and> \<not> prefix (currentText (run (overlap_trace @ [Fire 5 None]) tw_init)) TYPEWRITER_text"
proof -
  have a: "currentText (run (overlap_trace @ [Fire 5 None]) tw_init) = ''HIFH''" by code_simp
  show ?thesis unfolding a by (simp add: TYPEWRITER_text_def)
qed

section \<open>Retries while an element is missing\<close>

text \<open>
  \<open>startAnimation\<close> counts its retries: while the container is missing, whatever the order
  of calls and retry timeouts, it sets at most \<open>MAX_RETRIES\<close> timeouts in all, each with a
  delay of \<open>min (50 * retryCount) 500\<close> milliseconds, and then returns without a timeout.
\<close>

lemma retry_inv_start: "retry_inv b \<Longrightarrow> retry_inv (startAnimation False b)"
  by (auto simp: retry_inv_def startAnimation_def Let_def)

lemma retry_inv_step:
  assumes "retry_inv b" and "case e of CallStartAnimation f \<Rightarrow> \<not> f | FireRetry k f \<Rightarrow> \<not> f"
  shows "retry_inv (boot_step b e)"
proof (cases e)
  case (CallStartAnimation f)
  with assms show ?thesis by (simp add: retry_inv_start)
next
  case (FireRetry k f)
  from assms(1) have "retry_inv (b\<lparr>retries := filter (\<lambda>t. fst t \<noteq> k) (retries b)\<rparr>)"
    by (simp add: retry_inv_def list_all_filter)
  then have "retry_inv (startAnimation False (b\<lparr>retries := filter (\<lambda>t. fst t \<noteq> k) (retries b)\<rparr>))"
    by (rule retry_inv_start)
  with assms FireRetry show ?thesis by simp
qed

lemma retry_inv_run: "retry_inv b \<Longrightarrow> all_missing es \<Longrightarrow> retry_inv (boot_run es b)"
  unfolding boot_run_def all_missing_def
  by (induction es arbitrary: b) (simp_all add: retry_inv_step)

lemma startAnimation_bounded:
  assumes "all_missing es"
  shows "retryCount (boot_run es boot_init) \<le> 20
       \<and> nextRetry (boot_run es boot_init) \<le> 21
       \<and> list_all (\<lambda>t. snd t \<le> 500) (retries (boot_run es boot_init))"
proof -
  have "retry_inv boot_init" by (simp add: retry_inv_def boot_init_def)
  from retry_inv_run [OF this assms] show ?thesis by (simp add: retry_inv_def MAX_RETRIES_def)
qed

lemma startAnimation_gives_up:
  "retryCount b = MAX_RETRIES \<Longrightarrow> startAnimation False b = b"
  by (simp add: startAnimation_def)

lemma startAnimation_backoff:
  "retryCount b < MAX_RETRIES \<Longrightarrow>
     retries (startAnimation False b)
       = retries b @ [(nextRetry b, min (50 * (retryCount b + 1)) 500)]"
  by (simp add: startAnimation_def Let_def)

text \<open>
  Claim C3: for both effects a missing element leads to a bounded number of retries with
  backoff and then to silent give-up. \<open>startTypewriterAnimation\<close> has no counter: however
  many retries have fired without the element, the next one is pending, again after
  100 ms.
\<close>

theorem typewriter_retry_unbounded:
  "timers (run (retry_trace n) tw_init) = [Timer (Suc n) False RetryStart 100]
   \<and> typewriterInterval (run (retry_trace n) tw_init) = None"
proof -
  have "run (retry_trace n) tw_init =
          tw_init\<lparr>timers := [Timer (Suc n) False RetryStart 100], nextHandle := Suc (Suc n)\<rparr>"
  proof (induction n)
    case 0
    show ?case by (simp add: run_def startTypewriterAnimation_def setTimeout_def tw_init_def)
  next
    case (Suc n)
    then show ?case
      by (simp add: run_def fire_def startTypewriterAnimation_def setTimeout_def tw_init_def)
  qed
  then show ?thesis by (simp add: tw_init_def)
qed

section \<open>The grid built by resize\<close>

lemma length_row_dots: "length (row_dots r n) = 2 * n"
  by (induction n) (simp_all add: row_dots_def)

lemma length_grid_dots: "length (grid_dots n m) = 2 * n * m"
  by (induction m) (simp_all add: grid_dots_def length_row_dots)

lemma put_dot_append:
  "put_dot r (pre @ a # b # post, length pre) c =
     (pre @ [real (toFloat32 (c * GRID_SIZE)), real (toFloat32 (r * GRID_SIZE))] @ post,
      length pre + 2)"
  by (simp add: put_dot_def list_update_append)

text \<open>The inner loop fills the next \<open>2 * n\<close> cells of the zeroed array with one row.\<close>

lemma fill_row_append:
  "fill_row n (pre @ replicate (2 * n) 0 @ post, length pre) r =
     (pre @ row_dots r n @ post, length pre + 2 * n)"
proof (induction n arbitrary: post)
  case 0
  show ?case by (simp add: fill_row_def row_dots_def)
next
  case (Suc n)
  have split: "replicate (2 * Suc n) (0::real) @ post = replicate (2 * n) 0 @ (0 # 0 # post)"
  proof -
    have "replicate (2 * Suc n) (0::real) = replicate (2 * n) 0 @ replicate 2 0"
      by (simp add: replicate_add [symmetric])
    then show ?thesis by (simp add: numeral_2_eq_2)
  qed
  have "fill_row (Suc n) (pre @ replicate (2 * Suc n) 0 @ post, length pre) r =
        put_dot r (fill_row n (pre @ replicate (2 * n) 0 @ (0 # 0 # post), length pre) r) n"
    unfolding split by (simp add: fill_row_def)
  also have "\<dots> = put_dot r ((pre @ row_dots r n) @ 0 # 0 # post, length (pre @ row_dots r n)) n"
    by (simp add: Suc.IH length_row_dots)
  also have "\<dots> = ((pre @ row_dots r n)
                      @ [real (toFloat32 (n * GRID_SIZE)), real (toFloat32 (r * GRID_SIZE))] @ post,
                     length (pre @ row_dots r n) + 2)"
    by (rule put_dot_append)
  also have "\<dots> = (pre @ row_dots r (Suc n) @ post, length pre + 2 * Suc n)"
    by (simp add: row_dots_def length_row_dots [unfolded row_dots_def])
  finally show ?case .
qed

lemma fill_rows_append:
  "fold (\<lambda>r acc. fill_row n acc r) [0..<m] (pre @ replicate (2 * n * m) 0 @ post, length pre) =
     (pre @ grid_dots n m @ post, length pre + 2 * n * m)"
proof (induction m arbitrary: post)
  case 0
  show ?case by (simp add: grid_dots_def)
next
  case (Suc m)
  have split: "replicate (2 * n * Suc m) (0::real) @ post =
               replicate (2 * n * m) 0 @ (replicate (2 * n) 0 @ post)"
    by (simp add: replicate_add [symmetric] add.commute)
  have "fold (\<lambda>r acc. fill_row n acc r) [0..<Suc m]
          (pre @ replicate (2 * n * Suc m) 0 @ post, length pre) =
        fill_row n (fold (\<lambda>r acc. fill_row n acc r) [0..<m]
                      (pre @ replicate (2 * n * m) 0 @ (replicate (2 * n) 0 @ post), length pre)) m"
    unfolding split by simp
  also have "\<dots> = fill_row n ((pre @ grid_dots n m) @ replicate (2 * n) 0 @ post,
                                length (pre @ grid_dots n m)) m"
    by (simp add: Suc.IH length_grid_dots)
  also have "\<dots> = ((pre @ grid_dots n m) @ row_dots m n @ post,
                     length (pre @ grid_dots n m) + 2 * n)"
    by (rule fill_row_append)
  also have "\<dots> = (pre @ grid_dots n (Suc m) @ post, length pre + 2 * n * Suc m)"
    by (simp add: grid_dots_def length_grid_dots [unfolded grid_dots_def])
  finally show ?case .
qed

lemma fill_grid_eq: "fill_grid n m (replicate (n * m * 2) 0) = grid_dots n m"
proof -
  have eq: "n * m * 2 = 2 * n * m" by simp
  have "fold (\<lambda>r acc. fill_row n acc r) [0..<m]
          ([] @ replicate (2 * n * m) 0 @ [], length ([]::real list)) =
        ([] @ grid_dots n m @ [], length ([]::real list) + 2 * n * m)"
    by (rule fill_rows_append)
  then have "fst (fold (\<lambda>r acc. fill_row n acc r) [0..<m] (replicate (2 * n * m) 0, 0))
               = grid_dots n m"
    by simp
  then show ?thesis unfolding fill_grid_def eq .
qed

lemma row_dots_nth:
  "c < n \<Longrightarrow> row_dots r n ! (2 * c) = real (toFloat32 (c * GRID_SIZE)) \<and>
               row_dots r n ! (2 * c + 1) = real (toFloat32 (r * GRID_SIZE))"
proof (induction n)
  case 0
  then show ?case by simp
next
  case (Suc n)
  have app: "row_dots r (Suc n) =
             row_dots r n @ [real (toFloat32 (n * GRID_SIZE)), real (toFloat32 (r * GRID_SIZE))]"
    by (simp add: row_dots_def)
  show ?case
  proof (cases "c < n")
    case True
    with Suc.IH show ?thesis by (simp add: app nth_append length_row_dots)
  next
    case False
    with Suc.prems have "c = n" by simp
    then show ?thesis by (simp add: app nth_append length_row_dots)
  qed
qed

lemma grid_dots_nth:
  assumes "r < m" and "k < 2 * n"
  shows "grid_dots n m ! (2 * n * r + k) = row_dots r n ! k"
  using assms(1)
proof (induction m)
  case 0
  then show ?case by simp
next
  case (Suc m)
  have app: "grid_dots n (Suc m) = grid_dots n m @ row_dots m n"
    by (simp add: grid_dots_def)
  show ?case
  proof (cases "r < m")
    case True
    then have "Suc r \<le> m" by simp
    then have "2 * n * Suc r \<le> 2 * n * m" by (rule mult_le_mono2)
    with assms(2) have "2 * n * r + k < 2 * n * m" by simp
    with Suc.IH True show ?thesis by (simp add: app nth_append length_grid_dots)
  next
    case False
    with Suc.prems have "r = m" by simp
    then show ?thesis by (simp add: app nth_append length_grid_dots)
  qed
qed

lemma resize_Inr:
  assumes "resize cap rw rh s = Inr t"
  shows "width t = max 1 (to_int32 rw)" and "height t = max 1 (to_int32 rh)"
    and "cols t = nat \<lceil>real_of_int (width t) / real GRID_SIZE\<rceil>"
    and "rows t = nat \<lceil>real_of_int (height t) / real GRID_SIZE\<rceil>"
    and "dots t = grid_dots (cols t) (rows t)" and "ctx t = ctx s"
proof -
  let ?s1 = "s\<lparr>width := max 1 (to_int32 rw), height := max 1 (to_int32 rh)\<rparr>"
  let ?s2 = "?s1\<lparr>cols := nat \<lceil>real_of_int (width ?s1) / real GRID_SIZE\<rceil>,
                   rows := nat \<lceil>real_of_int (height ?s1) / real GRID_SIZE\<rceil>\<rparr>"
  from assms have t: "t = ?s2\<lparr>dots := fill_grid (cols ?s2) (rows ?s2)
                                        (replicate (cols ?s2 * rows ?s2 * 2) 0)\<rparr>"
    by (simp add: resize_def Let_def split: if_splits)
  show "width t = max 1 (to_int32 rw)" and "height t = max 1 (to_int32 rh)"
    and "cols t = nat \<lceil>real_of_int (width t) / real GRID_SIZE\<rceil>"
    and "rows t = nat \<lceil>real_of_int (height t) / real GRID_SIZE\<rceil>"
    by (simp_all add: t)
  show "dots t = grid_dots (cols t) (rows t)"
    by (simp add: t fill_grid_eq)
  show "ctx t = ctx s" by (simp add: t)
qed

text \<open>A call that raises leaves the grid as it was.\<close>

lemma resize_Inl:
  assumes "resize cap rw rh s = Inl (e, t)"
  shows "dots t = dots s" and "width t = max 1 (to_int32 rw)"
    and "height t = max 1 (to_int32 rh)"
  using assms by (auto simp: resize_def Let_def split: if_splits)

lemma resize_RangeError:
  assumes "resize cap rw rh s = Inl (RangeError, t)"
  shows "cols t = nat \<lceil>real_of_int (width t) / real GRID_SIZE\<rceil>"
    and "rows t = nat \<lceil>real_of_int (height t) / real GRID_SIZE\<rceil>"
proof -
  let ?s1 = "s\<lparr>width := max 1 (to_int32 rw), height := max 1 (to_int32 rh)\<rparr>"
  from assms
  have t: "t = ?s1\<lparr>cols := nat \<lceil>real_of_int (width ?s1) / real GRID_SIZE\<rceil>,
                       rows := nat \<lceil>real_of_int (height ?s1) / real GRID_SIZE\<rceil>\<rparr>"
    by (simp add: resize_def Let_def split: if_splits)
  show "cols t = nat \<lceil>real_of_int (width t) / real GRID_SIZE\<rceil>"
    and "rows t = nat \<lceil>real_of_int (height t) / real GRID_SIZE\<rceil>"
    by (simp_all add: t)
qed

lemma resize_returns_iff:
  "(\<exists>t. resize cap rw rh s = Inr t) = (ctx s \<and> allocates cap (grid_length rw rh))"
  by (simp add: resize_def Let_def grid_length_def)

lemma resize_result: "resize cap rw rh s = Inr t \<Longrightarrow> state_of (resize cap rw rh s) = t"
  by (simp add: state_of_def)

lemma ceil_grid:
  "nat \<lceil>60 / real GRID_SIZE\<rceil> = 3"
  "nat \<lceil>30 / real GRID_SIZE\<rceil> = 2"
  "nat \<lceil>20 / real GRID_SIZE\<rceil> = 1"
  "nat \<lceil>16777226 / real GRID_SIZE\<rceil> = 671090"
  "nat \<lceil>2147483647 / real GRID_SIZE\<rceil> = 85899346"
  by (simp_all add: GRID_SIZE_def)

lemma to_int32_grid:
  "to_int32 60 = 60" "to_int32 30 = 30" "to_int32 20 = 20" "to_int32 16777226 = 16777226"
  "to_int32 2147483647 = 2147483647"
  by (simp_all add: to_int32_def trunc_def)



text \<open>The two grids and the call that raises.\<close>

lemma small_grid_returns: "resize MAX_SAFE_INTEGER 60 30 (fl_fresh True) = Inr small_grid"
proof -
  have "ctx (fl_fresh True) \<and> allocates MAX_SAFE_INTEGER (grid_length 60 30)"
    by (simp add: fl_fresh_def allocates_def grid_length_def to_int32_grid ceil_grid
        MAX_SAFE_INTEGER_def)
  then obtain t where t: "resize MAX_SAFE_INTEGER 60 30 (fl_fresh True) = Inr t"
    unfolding resize_returns_iff [symmetric] by blast
  then show ?thesis by (simp add: small_grid_def state_of_def)
qed

lemma small_grid_fields:
  "cols small_grid = 3" "rows small_grid = 2" "length (dots small_grid) = 12"
  "ctx small_grid"
proof -
  note r = resize_Inr [OF small_grid_returns]
  show c: "cols small_grid = 3" and rw: "rows small_grid = 2"
    by (simp_all add: r to_int32_grid ceil_grid)
  show "length (dots small_grid) = 12" by (simp add: r(5) length_grid_dots c rw)
  show "ctx small_grid" by (simp add: r(6) fl_fresh_def)
qed

lemma huge_resize_raises: "huge_resize = Inl (RangeError, state_of huge_resize)"
proof -
  have "\<not> allocates MAX_SAFE_INTEGER (grid_length 2147483647 2147483647)"
    by (simp add: allocates_def grid_length_def to_int32_grid ceil_grid MAX_SAFE_INTEGER_def)
  then have "\<not> (\<exists>u. huge_resize = Inr u)"
    unfolding huge_resize_def resize_returns_iff by simp
  moreover have "huge_resize = Inl (TypeError, state_of huge_resize) \<or>
                 huge_resize = Inl (RangeError, state_of huge_resize) \<or>
                 (\<exists>u. huge_resize = Inr u)"
    by (simp add: huge_resize_def resize_def Let_def state_of_def)
  moreover have "huge_resize \<noteq> Inl (TypeError, state_of huge_resize)"
    using small_grid_fields(4) by (simp add: huge_resize_def resize_def Let_def)
  ultimately show ?thesis by blast
qed

lemma huge_resize_fields:
  "dots (state_of huge_resize) = dots small_grid"
  "width (state_of huge_resize) = 2147483647" "height (state_of huge_resize) = 2147483647"
  "cols (state_of huge_resize) = 85899346" "rows (state_of huge_resize) = 85899346"
proof -
  from huge_resize_raises
  have r: "resize MAX_SAFE_INTEGER 2147483647 2147483647 small_grid
             = Inl (RangeError, state_of huge_resize)"
    by (simp add: huge_resize_def)
  from resize_Inl [OF r]
  show "dots (state_of huge_resize) = dots small_grid"
    "width (state_of huge_resize) = 2147483647" "height (state_of huge_resize) = 2147483647"
    by (simp_all add: to_int32_grid)
  from resize_RangeError [OF r] resize_Inl(2,3) [OF r]
  show "cols (state_of huge_resize) = 85899346" "rows (state_of huge_resize) = 85899346"
    by (simp_all add: to_int32_grid ceil_grid)
qed


text \<open>What the array holds at the index of row \<open>r\<close> and column \<open>c\<close>, for any size.\<close>

lemma grid_nth:
  assumes "r < m" and "c < n"
  shows "grid_dots n m ! (2 * (r * n + c)) = real (toFloat32 (c * GRID_SIZE))"
    and "grid_dots n m ! (2 * (r * n + c) + 1) = real (toFloat32 (r * GRID_SIZE))"
proof -
  have i0: "2 * (r * n + c) = 2 * n * r + 2 * c" by (simp add: algebra_simps)
  have i1: "2 * (r * n + c) + 1 = 2 * n * r + (2 * c + 1)" by (simp add: algebra_simps)
  from assms(2) have k0: "2 * c < 2 * n" and k1: "2 * c + 1 < 2 * n" by simp_all
  show "grid_dots n m ! (2 * (r * n + c)) = real (toFloat32 (c * GRID_SIZE))"
    unfolding i0
    using grid_dots_nth [OF assms(1) k0] row_dots_nth [OF assms(2), of r] by simp
  show "grid_dots n m ! (2 * (r * n + c) + 1) = real (toFloat32 (r * GRID_SIZE))"
    unfolding i1
    using grid_dots_nth [OF assms(1) k1] row_dots_nth [OF assms(2), of r] by simp
qed

lemma toFloat32_exact: "n < 2 ^ 24 \<Longrightarrow> toFloat32 n = n"
  by (simp add: toFloat32_def f32_ulp.simps)

lemma ceil_span:
  assumes "1 \<le> w"
  shows "(int (nat \<lceil>real_of_int w / real GRID_SIZE\<rceil>) - 1) * int GRID_SIZE < w"
    and "w \<le> int (nat \<lceil>real_of_int w / real GRID_SIZE\<rceil>) * int GRID_SIZE"
proof -
  have c: "\<lceil>real_of_int w / real GRID_SIZE\<rceil> = - (- w div 25)"
    using ceiling_divide_eq_div [of w 25] by (simp add: GRID_SIZE_def)
  from assms have pos: "0 \<le> - (- w div 25)" by presburger
  then have k: "int (nat \<lceil>real_of_int w / real GRID_SIZE\<rceil>) = - (- w div 25)"
    by (simp add: c)
  have "(- (- w div 25) - 1) * 25 < w" by presburger
  then show "(int (nat \<lceil>real_of_int w / real GRID_SIZE\<rceil>) - 1) * int GRID_SIZE < w"
    unfolding k by (simp add: GRID_SIZE_def)
  have "w \<le> - (- w div 25) * 25" by presburger
  then show "w \<le> int (nat \<lceil>real_of_int w / real GRID_SIZE\<rceil>) * int GRID_SIZE"
    unfolding k by (simp add: GRID_SIZE_def)
qed

lemma coord_below:
  assumes "1 \<le> w" and "c < nat \<lceil>real_of_int w / real GRID_SIZE\<rceil>"
  shows "int (c * GRID_SIZE) < w"
proof -
  from assms(2) have "int c \<le> int (nat \<lceil>real_of_int w / real GRID_SIZE\<rceil>) - 1" by linarith
  then have "int c * int GRID_SIZE
               \<le> (int (nat \<lceil>real_of_int w / real GRID_SIZE\<rceil>) - 1) * int GRID_SIZE"
    by (rule mult_right_mono) simp
  with ceil_span(1) [OF assms(1)] show ?thesis by simp
qed

lemma coord_exact:
  assumes "int (c * GRID_SIZE) < w" and "w \<le> 16777225"
  shows "c * GRID_SIZE < 2 ^ 24"
proof -
  from assms have "int c * 25 < 16777225" by (simp add: GRID_SIZE_def)
  then have "c < 671089" by linarith
  then show ?thesis by (simp add: GRID_SIZE_def)
qed

text \<open>
  Claim C7, as the code has it: after every call to \<open>resize\<close> that returns, the array
  holds one pair for every row \<open>r < rows\<close> and column \<open>c < cols\<close>, at index
  \<open>2 * (r * cols + c)\<close>: the coordinates \<open>c * GRID_SIZE\<close> and \<open>r * GRID_SIZE\<close> as the
  32-bit floats nearest to them. A coordinate below \<open>2 ^ 24\<close> is stored exactly, and so is
  every x coordinate when the clamped width is at most 16777225 pixels and every y
  coordinate when the clamped height is. The lattice spans the clamped width and height:
  the last column lies inside the width and one more column would lie at or beyond it, and
  so for the rows.
\<close>

theorem resize_lattice:
  assumes "resize cap rw rh s = Inr t" and "r < rows t" and "c < cols t"
  shows "dots t ! (2 * (r * cols t + c)) = real (toFloat32 (c * GRID_SIZE))
       \<and> dots t ! (2 * (r * cols t + c) + 1) = real (toFloat32 (r * GRID_SIZE))
       \<and> (c * GRID_SIZE < 2 ^ 24 \<longrightarrow> dots t ! (2 * (r * cols t + c)) = real (c * GRID_SIZE))
       \<and> (r * GRID_SIZE < 2 ^ 24 \<longrightarrow> dots t ! (2 * (r * cols t + c) + 1) = real (r * GRID_SIZE))
       \<and> (width t \<le> 16777225 \<longrightarrow> dots t ! (2 * (r * cols t + c)) = real (c * GRID_SIZE))
       \<and> (height t \<le> 16777225 \<longrightarrow> dots t ! (2 * (r * cols t + c) + 1) = real (r * GRID_SIZE))
       \<and> length (dots t) = 2 * (rows t * cols t)
       \<and> (int (cols t) - 1) * int GRID_SIZE < width t
       \<and> width t \<le> int (cols t) * int GRID_SIZE
       \<and> (int (rows t) - 1) * int GRID_SIZE < height t
       \<and> height t \<le> int (rows t) * int GRID_SIZE"
proof -
  note f = resize_Inr [OF assms(1)]
  have w1: "1 \<le> width t" and h1: "1 \<le> height t" by (simp_all add: f(1,2))
  have x: "dots t ! (2 * (r * cols t + c)) = real (toFloat32 (c * GRID_SIZE))"
    and y: "dots t ! (2 * (r * cols t + c) + 1) = real (toFloat32 (r * GRID_SIZE))"
    using grid_nth [OF assms(2,3)] by (simp_all add: f(5))
  from coord_below [OF w1] assms(3) f(3) have xw: "int (c * GRID_SIZE) < width t" by simp
  from coord_below [OF h1] assms(2) f(4) have yh: "int (r * GRID_SIZE) < height t" by simp
  have xe: "dots t ! (2 * (r * cols t + c)) = real (c * GRID_SIZE)" if "c * GRID_SIZE < 2 ^ 24"
    unfolding x using toFloat32_exact [OF that] by simp
  have ye: "dots t ! (2 * (r * cols t + c) + 1) = real (r * GRID_SIZE)" if "r * GRID_SIZE < 2 ^ 24"
    unfolding y using toFloat32_exact [OF that] by simp
  have xb: "dots t ! (2 * (r * cols t + c)) = real (c * GRID_SIZE)" if "width t \<le> 16777225"
    using xe coord_exact [OF xw that] by simp
  have yb: "dots t ! (2 * (r * cols t + c) + 1) = real (r * GRID_SIZE)" if "height t \<le> 16777225"
    using ye coord_exact [OF yh that] by simp
  have len: "length (dots t) = 2 * (rows t * cols t)"
    by (simp only: f(5) length_grid_dots) simp
  have sp: "(int (cols t) - 1) * int GRID_SIZE < width t"
    "width t \<le> int (cols t) * int GRID_SIZE"
    "(int (rows t) - 1) * int GRID_SIZE < height t"
    "height t \<le> int (rows t) * int GRID_SIZE"
    using ceil_span [OF w1] ceil_span [OF h1] f(3,4) by simp_all
  from x y xe ye xb yb len sp show ?thesis by blast
qed

theorem resize_lattice_witness:
  "cols small_grid = 3 \<and> rows small_grid = 2
   \<and> dots small_grid ! 10 = 50 \<and> dots small_grid ! 11 = 25
   \<and> length (dots small_grid) = 12"
proof -
  have h: "1 < rows small_grid" "2 < cols small_grid"
    by (simp_all add: small_grid_fields)
  have "width small_grid \<le> 16777225 \<and> height small_grid \<le> 16777225"
    by (simp add: resize_Inr(1,2) [OF small_grid_returns] to_int32_grid)
  with resize_lattice [OF small_grid_returns h] show ?thesis
    by (simp add: small_grid_fields GRID_SIZE_def)
qed

lemma wide_grid_returns: "resize MAX_SAFE_INTEGER 16777226 20 (fl_fresh True) = Inr wide_grid"
proof -
  have "ctx (fl_fresh True) \<and> allocates MAX_SAFE_INTEGER (grid_length 16777226 20)"
    by (simp add: fl_fresh_def allocates_def grid_length_def to_int32_grid ceil_grid
        MAX_SAFE_INTEGER_def)
  then obtain t where t: "resize MAX_SAFE_INTEGER 16777226 20 (fl_fresh True) = Inr t"
    unfolding resize_returns_iff [symmetric] by blast
  then show ?thesis by (simp add: wide_grid_def state_of_def)
qed

text \<open>
  Claim C7 as stated fails in two ways. For a container 16777226 pixels wide \<open>resize\<close>
  returns, column 671089 belongs to the grid, and its coordinate 16777225 is no 32-bit
  float: the array holds 16777224. And after the call that raises, \<open>cols\<close> and \<open>rows\<close>
  are those of the huge container while the array is the old one: at the index of row 0
  and column 3 it holds the 0 of the old second row, not 75.
\<close>

theorem resize_lattice_float32:
  "671089 < cols wide_grid \<and> 0 < rows wide_grid
   \<and> dots wide_grid ! (2 * (0 * cols wide_grid + 671089)) = 16777224
   \<and> dots wide_grid ! (2 * (0 * cols wide_grid + 671089)) \<noteq> real (671089 * GRID_SIZE)
   \<and> huge_resize = Inl (RangeError, state_of huge_resize)
   \<and> 3 < cols (state_of huge_resize) \<and> 0 < rows (state_of huge_resize)
   \<and> dots (state_of huge_resize) ! (2 * (0 * cols (state_of huge_resize) + 3)) = 0
   \<and> dots (state_of huge_resize) ! (2 * (0 * cols (state_of huge_resize) + 3))
       \<noteq> real (3 * GRID_SIZE)"
proof -
  note w = resize_Inr [OF wide_grid_returns]
  have f: "cols wide_grid = 671090" "rows wide_grid = 1"
    by (simp_all add: w to_int32_grid ceil_grid)
  have e: "toFloat32 16777225 = 16777224"
    by (simp add: toFloat32_def f32_ulp.simps)
  have "dots wide_grid ! (2 * (0 * 671090 + 671089)) = real (toFloat32 (671089 * GRID_SIZE))"
    unfolding w(5) f by (rule grid_nth) simp_all
  then have a: "dots wide_grid ! (2 * (0 * cols wide_grid + 671089)) = 16777224"
    by (simp add: f e GRID_SIZE_def)
  note s = resize_Inr [OF small_grid_returns]
  have "dots small_grid ! (2 * (1 * 3 + 0)) = real (toFloat32 (0 * GRID_SIZE))"
    unfolding s(5) small_grid_fields by (rule grid_nth) simp_all
  then have "dots small_grid ! 6 = 0" by (simp add: toFloat32_exact)
  then have b: "dots (state_of huge_resize) ! (2 * (0 * cols (state_of huge_resize) + 3)) = 0"
    by (simp add: huge_resize_fields)
  from a b huge_resize_raises show ?thesis
    by (simp add: f huge_resize_fields GRID_SIZE_def)
qed

section \<open>Stopping the effects\<close>

subsection \<open>A flowing-light run has at most one frame requested\<close>

text \<open>\<open>resize\<close>, returning or raising, touches the size and the grid only.\<close>

lemma resize_keeps:
  "frames (state_of (resize cap rw rh s)) = frames s"
  "rafId (state_of (resize cap rw rh s)) = rafId s"
  "running (state_of (resize cap rw rh s)) = running s"
  "debounces (state_of (resize cap rw rh s)) = debounces s"
  "resizeListener (state_of (resize cap rw rh s)) = resizeListener s"
  "mousemoveListener (state_of (resize cap rw rh s)) = mousemoveListener s"
  "canvasAttached (state_of (resize cap rw rh s)) = canvasAttached s"
  "cleanupHandle (state_of (resize cap rw rh s)) = cleanupHandle s"
  "painted (state_of (resize cap rw rh s)) = painted s"
  "nextTimer (state_of (resize cap rw rh s)) = nextTimer s"
  "nextFrame (state_of (resize cap rw rh s)) = nextFrame s"
  "resizeTimer (state_of (resize cap rw rh s)) = resizeTimer s"
  by (simp_all add: resize_def Let_def state_of_def)

lemma state_of_simps:
  "state_of (Inl (e, s)) = s" "state_of (Inr s) = s"
  by (simp_all add: state_of_def)

lemma settle_state:
  "frames (settle r) = frames (state_of r)" "rafId (settle r) = rafId (state_of r)"
  "running (settle r) = running (state_of r)" "debounces (settle r) = debounces (state_of r)"
  "resizeListener (settle r) = resizeListener (state_of r)"
  "mousemoveListener (settle r) = mousemoveListener (state_of r)"
  "canvasAttached (settle r) = canvasAttached (state_of r)"
  "cleanupHandle (settle r) = cleanupHandle (state_of r)"
  "painted (settle r) = painted (state_of r)"
  by (cases r; auto simp: settle_def state_of_def)+

lemma debounced_stopped:
  assumes "\<not> running s"
  shows "state_of (debounced cap rw rh s)
           = state_of (resize cap rw rh (cancelAnimationFrame (rafId s) s))"
proof (cases "resize cap rw rh (cancelAnimationFrame (rafId s) s)")
  case (Inl x)
  then show ?thesis by (simp add: debounced_def Let_def state_of_def)
next
  case (Inr t)
  from resize_keeps(3) [of cap rw rh "cancelAnimationFrame (rafId s) s"] Inr assms
  have "\<not> running t" by (simp add: state_of_def cancelAnimationFrame_def)
  with Inr show ?thesis by (simp add: debounced_def Let_def state_of_def)
qed

lemma one_frame_debounced:
  assumes "one_frame s"
  shows "one_frame (state_of (debounced cap rw rh s))"
proof -
  let ?s1 = "cancelAnimationFrame (rafId s) s"
  from assms have f1: "frames ?s1 = []"
    by (auto simp: one_frame_def cancelAnimationFrame_def)
  show ?thesis
  proof (cases "resize cap rw rh ?s1")
    case (Inl x)
    then have "state_of (debounced cap rw rh s) = state_of (resize cap rw rh ?s1)"
      by (simp add: debounced_def Let_def state_of_def)
    with resize_keeps(1) [of cap rw rh ?s1] f1 show ?thesis by (simp add: one_frame_def)
  next
    case (Inr t)
    from resize_keeps(1) [of cap rw rh ?s1] Inr f1 have "frames t = []"
      by (simp add: state_of_def)
    moreover from Inr
    have "state_of (debounced cap rw rh s) = (if running t then requestAnimationFrame t else t)"
      by (simp add: debounced_def Let_def state_of_def)
    ultimately show ?thesis by (simp add: one_frame_def requestAnimationFrame_def)
  qed
qed

lemma one_frame_tick:
  assumes "frames s = []"
  shows "one_frame (state_of (tick s))"
  using assms by (simp add: tick_def Let_def state_of_def one_frame_def requestAnimationFrame_def)

lemma one_frame_settle: "one_frame (settle r) = one_frame (state_of r)"
  by (simp add: one_frame_def settle_state)

lemma one_frame_start: "one_frame (state_of (start_run c cap rw rh))"
proof (cases "resize cap rw rh (fl_fresh c)")
  case (Inl x)
  have "frames (state_of (resize cap rw rh (fl_fresh c))) = []"
    by (simp add: resize_keeps fl_fresh_def)
  with Inl show ?thesis by (simp add: start_run_def one_frame_def state_of_def)
next
  case (Inr s1)
  have "frames (state_of (resize cap rw rh (fl_fresh c))) = []"
    by (simp add: resize_keeps fl_fresh_def)
  with Inr have "frames s1 = []" by (simp add: state_of_def)
  with Inr show ?thesis
    by (simp add: start_run_def one_frame_def state_of_def Let_def requestAnimationFrame_def)
qed

lemma one_frame_step: "one_frame s \<Longrightarrow> one_frame (fl_step s e)"
proof (cases e)
  case (FrameFire k)
  assume a: "one_frame s"
  show ?thesis
  proof (cases "k \<in> set (frames s)")
    case True
    with a have "frames (s\<lparr>frames := filter (\<lambda>f. f \<noteq> k) (frames s)\<rparr>) = []"
      by (auto simp: one_frame_def)
    then have "one_frame (state_of (tick (s\<lparr>frames := filter (\<lambda>f. f \<noteq> k) (frames s)\<rparr>)))"
      by (rule one_frame_tick)
    with True show ?thesis by (simp add: FrameFire one_frame_settle)
  next
    case False
    with a show ?thesis by (simp add: FrameFire)
  qed
next
  case WindowResize
  assume "one_frame s"
  then show ?thesis by (auto simp: WindowResize one_frame_def onResize_def Let_def)
next
  case (DebounceFire k cap rw rh)
  assume a: "one_frame s"
  then have "one_frame (s\<lparr>debounces := filter (\<lambda>f. f \<noteq> k) (debounces s)\<rparr>)"
    by (simp add: one_frame_def)
  then have "one_frame (state_of (debounced cap rw rh
                (s\<lparr>debounces := filter (\<lambda>f. f \<noteq> k) (debounces s)\<rparr>)))"
    by (rule one_frame_debounced)
  with a show ?thesis by (simp add: DebounceFire one_frame_settle)
next
  case (MouseMove a b c d)
  assume "one_frame s"
  then show ?thesis by (auto simp: MouseMove one_frame_def onMouseMove_def)
next
  case Cleanup
  assume "one_frame s"
  then show ?thesis
    by (auto simp: Cleanup one_frame_def cleanup_def Let_def cancelAnimationFrame_def)
qed

lemma one_frame_run: "one_frame s \<Longrightarrow> one_frame (fl_run es s)"
  unfolding fl_run_def by (induction es arbitrary: s) (simp_all add: one_frame_step)

lemma cleanup_stopped: "one_frame s \<Longrightarrow> stopped (cleanup s)"
  by (auto simp: one_frame_def stopped_def cleanup_def Let_def cancelAnimationFrame_def)

subsection \<open>A stopped run stays stopped\<close>

lemma stopped_step:
  assumes "stopped s"
  shows "stopped (fl_step s e) \<and> painted (fl_step s e) = painted s
         \<and> set (debounces (fl_step s e)) \<subseteq> set (debounces s)"
proof (cases e)
  case (FrameFire k)
  with assms show ?thesis by (simp add: stopped_def)
next
  case WindowResize
  with assms show ?thesis by (simp add: stopped_def)
next
  case (DebounceFire k cap rw rh)
  let ?d = "s\<lparr>debounces := filter (\<lambda>f. f \<noteq> k) (debounces s)\<rparr>"
  from assms have "\<not> running ?d" by (simp add: stopped_def)
  then have "state_of (debounced cap rw rh ?d)
               = state_of (resize cap rw rh (cancelAnimationFrame (rafId ?d) ?d))"
    by (rule debounced_stopped)
  with assms show ?thesis
    by (auto simp: DebounceFire stopped_def settle_state resize_keeps cancelAnimationFrame_def)
next
  case (MouseMove a b c d)
  with assms show ?thesis by (simp add: stopped_def)
next
  case Cleanup
  with assms show ?thesis by (simp add: stopped_def)
qed

lemma stopped_run:
  "stopped s \<Longrightarrow> stopped (fl_run es s) \<and> painted (fl_run es s) = painted s
     \<and> set (debounces (fl_run es s)) \<subseteq> set (debounces s)"
  unfolding fl_run_def
proof (induction es arbitrary: s)
  case Nil
  then show ?case by simp
next
  case (Cons e es)
  from stopped_step [OF Cons.prems, of e] Cons.IH [of "fl_step s e"] show ?case by auto
qed

text \<open>
  The cleanup of a run, in whatever state the run is, leaves it with \<open>running\<close> false, no
  animation frame requested, neither listener registered and the canvas detached; whatever
  happens afterwards, a debounce timeout that was still pending included, the run requests
  no frame and draws nothing.
\<close>

lemma cleanup_stops_run:
  "stopped (cleanup (fl_run es (state_of (start_run c cap rw rh))))
   \<and> frames (fl_run es' (cleanup (fl_run es (state_of (start_run c cap rw rh))))) = []
   \<and> painted (fl_run es' (cleanup (fl_run es (state_of (start_run c cap rw rh)))))
       = painted (fl_run es (state_of (start_run c cap rw rh)))"
proof -
  let ?s = "fl_run es (state_of (start_run c cap rw rh))"
  have st: "stopped (cleanup ?s)"
    by (rule cleanup_stopped) (rule one_frame_run [OF one_frame_start])
  from stopped_run [OF st, of es']
  have after: "frames (fl_run es' (cleanup ?s)) = []
                \<and> painted (fl_run es' (cleanup ?s)) = painted (cleanup ?s)"
    by (simp add: stopped_def)
  have p: "painted (cleanup ?s) = painted ?s"
    by (simp add: cleanup_def Let_def cancelAnimationFrame_def)
  from st after p show ?thesis by simp
qed

text \<open>The debounce timeout itself is not cancelled: the cleanup has no call for it.\<close>

lemma cleanup_leaves_debounce:
  "debounces (cleanup (fl_run [WindowResize] (state_of (start_run True 1000 50 20)))) = [1]"
proof -
  have "ctx (fl_fresh True) \<and> allocates 1000 (grid_length 50 20)"
    by (simp add: fl_fresh_def allocates_def grid_length_def to_int32_def trunc_def GRID_SIZE_def
        MAX_SAFE_INTEGER_def)
  then obtain t where t: "resize 1000 50 20 (fl_fresh True) = Inr t"
    unfolding resize_returns_iff [symmetric] by blast
  from resize_keeps [of 1000 50 20 "fl_fresh True"]
  have k: "debounces t = []" "resizeTimer t = 0" "nextTimer t = 1"
    unfolding resize_result [OF t] by (simp_all add: fl_fresh_def)
  have "state_of (start_run True 1000 50 20) =
          (requestAnimationFrame
             (t\<lparr>mouseX := real_of_int (width t) / 2, mouseY := real_of_int (height t) / 2\<rparr>))
          \<lparr>resizeListener := True, mousemoveListener := True, cleanupHandle := True\<rparr>"
    by (simp add: start_run_def t state_of_def Let_def)
  then show ?thesis
    by (simp add: fl_run_def onResize_def cleanup_def cancelAnimationFrame_def Let_def
        requestAnimationFrame_def k)
qed

subsection \<open>The recorded interval\<close>

lemma stop_clears:
  assumes "handles_ok s"
  shows "typewriterInterval (stopTypewriterAnimation s) = None
       \<and> filter (\<lambda>t. Some (handle t) = typewriterInterval s)
            (timers (stopTypewriterAnimation s)) = []"
proof (cases "typewriterInterval s")
  case None
  then show ?thesis
    by (simp add: stopTypewriterAnimation_def truthy_def split: option.splits)
next
  case (Some h)
  with assms have "0 < h" by (simp add: handles_ok_def)
  with Some show ?thesis
    by (auto simp: stopTypewriterAnimation_def truthy_def clearInterval_def filter_empty_conv
        Let_def split: option.splits)
qed

text \<open>
  In whatever state the typewriter is, \<open>stopTypewriterAnimation\<close> leaves
  \<open>typewriterInterval\<close> empty and the interval it held removed from the timer table.
\<close>

lemma stop_clears_recorded:
  "typewriterInterval (stopTypewriterAnimation (run es tw_init)) = None
   \<and> filter (\<lambda>t. Some (handle t) = typewriterInterval (run es tw_init))
        (timers (stopTypewriterAnimation (run es tw_init))) = []"
  by (rule stop_clears [OF handles_ok_run [OF handles_ok_init]])

lemma stop_ticks:
  assumes "chain_inv s"
  shows "ticks (stopTypewriterAnimation s) = []"
proof -
  have "truthy (typewriterInterval s) \<or> typewriterInterval s = None"
    using chain_invD(1) [OF assms] by (auto simp: handles_ok_def truthy_def split: option.splits)
  then have "timers (stopTypewriterAnimation s) = timers (clearInterval (typewriterInterval s) s)"
    by (auto simp: stopTypewriterAnimation_def Let_def clearInterval_def truthy_def
        split: option.splits)
  with cleared_ticks [OF assms] show ?thesis by (simp add: ticks_def)
qed

text \<open>
  On an execution without a start in a pause the typewriter has no other interval, so
  after \<open>stopTypewriterAnimation\<close> no interval is left at all.
\<close>

lemma stop_single_chain:
  assumes "no_start_in_pause tw_init es"
  shows "ticks (stopTypewriterAnimation (run es tw_init)) = []
       \<and> typewriterInterval (stopTypewriterAnimation (run es tw_init)) = None"
  using stop_ticks [OF chain_inv_run [OF chain_inv_init assms]] stop_clears_recorded [of es]
  by simp

subsection \<open>A stop in a pause\<close>

text \<open>
  Claim C4: stopping either effect removes every listener and every scheduled timer of
  that effect, so neither changes the page again until it is restarted. A typewriter that
  is stopped in the pause after typing keeps the pause timeout, the only timer it has
  then: the page shows the complete text, the timeout fires and creates an interval, and
  the next tick deletes the last character on the page.
\<close>

theorem stop_in_pause_resumes:
  "timers (run typed_trace tw_init) = [Timer 2 False PauseAfterType 5000]
   \<and> timers (stopTypewriterAnimation (run typed_trace tw_init))
       = [Timer 2 False PauseAfterType 5000]
   \<and> textContent (stopTypewriterAnimation (run typed_trace tw_init)) 0 = Some ''HIFI DOCS''
   \<and> timers (run [Fire 2 None] (stopTypewriterAnimation (run typed_trace tw_init)))
       = [Timer 3 True TypewriterTick 50]
   \<and> textContent (run [Fire 2 None, Fire 3 None]
        (stopTypewriterAnimation (run typed_trace tw_init))) 0 = Some ''HIFI DOC''"
proof -
  have a: "timers (run typed_trace tw_init) = [Timer 2 False PauseAfterType 5000]"
    by code_simp
  have b: "timers (stopTypewriterAnimation (run typed_trace tw_init))
             = [Timer 2 False PauseAfterType 5000]"
    by code_simp
  have c: "textContent (stopTypewriterAnimation (run typed_trace tw_init)) 0 = Some ''HIFI DOCS''"
    by code_simp
  have d: "timers (run [Fire 2 None] (stopTypewriterAnimation (run typed_trace tw_init)))
             = [Timer 3 True TypewriterTick 50]"
    by code_simp
  have e: "textContent (run [Fire 2 None, Fire 3 None]
             (stopTypewriterAnimation (run typed_trace tw_init))) 0 = Some ''HIFI DOC''"
    by code_simp
  from a b c d e show ?thesis by simp
qed

text \<open>
  After a start in a pause has left two intervals, the stop clears the one in
  \<open>typewriterInterval\<close>; the other goes on typing over the text the stop has set.
\<close>

lemma stop_leaves_second_interval:
  "timers (stopTypewriterAnimation (run pause_start_trace tw_init))
     = [Timer 3 True TypewriterTick 150]
   \<and> textContent (run [Fire 3 None] (stopTypewriterAnimation (run pause_start_trace tw_init))) 0
     = Some ''H''"
  by code_simp

text \<open>
  Claim C10: when \<open>stopTypewriterAnimation\<close> is called while \<open>typewriterElement\<close> holds
  the element found by the last start, the element shows the complete target text
  \<open>HIFI DOCS\<close>, whatever part of it was showing.
\<close>

theorem stop_shows_full_text:
  "typewriterElement s = Some e \<Longrightarrow>
     textContent (stopTypewriterAnimation s) e = Some TYPEWRITER_text
     \<and> TYPEWRITER_text = ''HIFI DOCS''"
  by (simp add: stopTypewriterAnimation_def Let_def clearInterval_def TYPEWRITER_text_def
      split: option.splits)

theorem stop_shows_full_text_witness:
  "typewriterElement (run [CallStart (Some 0), Fire 1 None, Fire 1 None, Fire 1 None] tw_init)
     = Some 0
   \<and> textContent (run [CallStart (Some 0), Fire 1 None, Fire 1 None, Fire 1 None] tw_init) 0
     = Some ''HIF''
   \<and> textContent (stopTypewriterAnimation
        (run [CallStart (Some 0), Fire 1 None, Fire 1 None, Fire 1 None] tw_init)) 0
     = Some ''HIFI DOCS''"
proof -
  let ?s = "run [CallStart (Some 0), Fire 1 None, Fire 1 None, Fire 1 None] tw_init"
  have e: "typewriterElement ?s = Some 0" by code_simp
  have t: "textContent ?s 0 = Some ''HIF''" by code_simp
  from stop_shows_full_text [OF e] e t show ?thesis by simp
qed

section \<open>The brightness of a dot\<close>

lemma sin_unit: "0 \<le> sin (x::real) * 0.5 + 0.5 \<and> sin x * 0.5 + 0.5 \<le> 1"
proof -
  have "- 1 \<le> sin x" and "sin x \<le> 1" by simp_all
  then show ?thesis by argo
qed

lemma half_wave: "sin (x::real) * 0.5 + 0.5 = unit_wave x"
  by (simp add: unit_wave_def add_divide_distrib)

lemma wave_bounds:
  "0 \<le> wave1 t d \<and> wave1 t d \<le> 1 \<and> 0 \<le> wave2 t d \<and> wave2 t d \<le> 1
   \<and> 0 \<le> wave3 t d \<and> wave3 t d \<le> 1"
  unfolding wave1_def wave2_def wave3_def using sin_unit by blast

lemma intensity_bounds: "0 \<le> intensity t d \<and> intensity t d \<le> 1"
  using wave_bounds [of t d] by (simp add: intensity_def)

lemma proxBoost_nonneg: "0 \<le> proxBoost d"
  by (simp add: proxBoost_def)

lemma finalIntensity_bounds: "0 \<le> finalIntensity t d \<and> finalIntensity t d \<le> 1"
  using intensity_bounds [of t d] proxBoost_nonneg [of d] by (simp add: finalIntensity_def)

lemma finalIntensity_spec: "finalIntensity t d = brightness_spec t d"
  unfolding finalIntensity_def brightness_spec_def intensity_def wave1_def wave2_def wave3_def
    proxBoost_def proxInv_def half_wave
  by simp

lemma alpha_bounds:
  "0.02 \<le> snd (snd (paint_dot s x0 y0)) \<and> snd (snd (paint_dot s x0 y0)) \<le> 0.52"
proof -
  let ?f = "finalIntensity (time s) (hypot (mouseX s - x0) (mouseY s - y0))"
  have b: "0 \<le> ?f \<and> ?f \<le> 1" by (rule finalIntensity_bounds)
  have a: "snd (snd (paint_dot s x0 y0)) = OPACITY_BASE + ?f * OPACITY_SCALE"
    by (simp add: paint_dot_def Let_def)
  show ?thesis unfolding a using b by (simp add: OPACITY_BASE_def OPACITY_SCALE_def)
qed

text \<open>
  Claim C6: for every grid point, elapsed time and cursor position the brightness that
  \<open>tick\<close> computes is the mean of three phase-shifted sine waves of the elapsed time and
  the distance to the cursor, each mapped into \<open>[0, 1]\<close>, plus the proximity boost
  \<open>max 0 (1 - dst / PROX_RADIUS) * 0.4\<close>, the sum clamped to at most 1; the opacity
  painted is \<open>OPACITY_BASE\<close> plus that brightness times \<open>OPACITY_SCALE\<close> and lies in
  \<open>[0.02, 0.52]\<close>.
\<close>

theorem tick_brightness_opacity:
  "finalIntensity t d = brightness_spec t d
   \<and> 0 \<le> unit_wave x \<and> unit_wave x \<le> 1
   \<and> snd (snd (paint_dot s x0 y0)) =
       OPACITY_BASE
         + brightness_spec (time s) (hypot (mouseX s - x0) (mouseY s - y0)) * OPACITY_SCALE
   \<and> 0.02 \<le> snd (snd (paint_dot s x0 y0)) \<and> snd (snd (paint_dot s x0 y0)) \<le> 0.52"
proof -
  let ?f = "finalIntensity (time s) (hypot (mouseX s - x0) (mouseY s - y0))"
  have u: "0 \<le> unit_wave x \<and> unit_wave x \<le> 1"
    using sin_unit [of x] by (simp only: half_wave)
  have a: "snd (snd (paint_dot s x0 y0)) = OPACITY_BASE + ?f * OPACITY_SCALE"
    by (simp add: paint_dot_def Let_def)
  show ?thesis using a u alpha_bounds [of s x0 y0] by (simp add: finalIntensity_spec)
qed

text \<open>Every dot that a frame draws is painted by \<open>paint_dot\<close>, so with such an opacity.\<close>

lemma draw_dots_alpha:
  "list_all (\<lambda>p. 0.02 \<le> snd (snd p) \<and> snd (snd p) \<le> 0.52) (draw_dots s i)"
proof (induction s i rule: draw_dots.induct)
  case (1 s i)
  show ?case
  proof (cases "i < length (dots s)")
    case True
    with "1" alpha_bounds show ?thesis by (simp add: draw_dots.simps [of s i])
  next
    case False
    then show ?thesis by (simp add: draw_dots.simps [of s i])
  qed
qed

section \<open>Restart by the observers\<close>



lemma start_run_error:
  "start_run c cap rw rh = Inl (e, t) \<Longrightarrow> e = (if c then RangeError else TypeError)"
  by (cases "resize cap rw rh (fl_fresh c)")
     (auto simp: start_run_def resize_def Let_def fl_fresh_def split: if_splits)



text \<open>In \<open>flowing-light.js\<close>, which has the one effect, that effect is started.\<close>

lemma containerObserver_fl_starts:
  assumes "ChildList ns \<in> set ms" and "added_loop ns"
  shows "containerObserver_fl c ms = start_one c"
  using assms(1)
proof (induction ms)
  case Nil
  then show ?case by simp
next
  case (Cons m ms)
  show ?case
  proof (cases m)
    case (ChildList ns')
    show ?thesis
    proof (cases "added_loop ns'")
      case True
      with ChildList show ?thesis by simp
    next
      case False
      with assms(2) have "ns' \<noteq> ns" by auto
      with Cons ChildList False show ?thesis by simp
    qed
  next
    case Attributes
    with Cons show ?thesis by simp
  next
    case CharacterData
    with Cons show ?thesis by simp
  qed
qed




end
